theory Spec2Isabelle
  imports Main "HOL-Library.AList" "HOL-Library.Sublist"
begin

section \<open>Python values and the define table\<close>

text \<open>
  The values a define can hold.  The source stores whatever Python's \<open>eval\<close> returns;
  the model keeps the four kinds the specification names (absent, boolean, number,
  string).
\<close>

datatype pyval = PNone | PBool bool | PInt int | PStr string

text \<open>Python truthiness, as used by \<open>if _evaluate(expr, defines):\<close>.\<close>

fun truthy :: "pyval \<Rightarrow> bool" where
  "truthy PNone = False"
| "truthy (PBool b) = b"
| "truthy (PInt i) = (i \<noteq> 0)"
| "truthy (PStr s) = (s \<noteq> [])"

fun digits :: "nat \<Rightarrow> string" where
  "digits n = (if n < 10 then [''0123456789'' ! n]
               else digits (n div 10) @ [''0123456789'' ! (n mod 10)])"

declare digits.simps [simp del]

text \<open>\<open>str(value)\<close>.\<close>

fun py_str :: "pyval \<Rightarrow> string" where
  "py_str PNone = ''None''"
| "py_str (PBool b) = (if b then ''True'' else ''False'')"
| "py_str (PInt i) = (if i < 0 then ''-'' @ digits (nat (- i)) else digits (nat i))"
| "py_str (PStr s) = s"

text \<open>
  The define table is a Python dict.  It is modelled as an association list with distinct
  keys, iterated in the order of the list: a new key goes to the end and an existing key
  keeps its place.  (The order in which Python 2 iterates a dict depends on the hashes
  of its keys; the only place where the engine depends on it is the order of names of
  equal length in the substitution.)
\<close>

type_synonym define_table = "(string \<times> pyval) list"

definition dict_get :: "define_table \<Rightarrow> string \<Rightarrow> pyval option" where
  "dict_get d k = map_of d k"

definition dict_set :: "define_table \<Rightarrow> string \<Rightarrow> pyval \<Rightarrow> define_table" where
  "dict_set d k v = AList.update k v d"

definition dict_del :: "define_table \<Rightarrow> string \<Rightarrow> define_table" where
  "dict_del d k = AList.delete k d"

definition dict_keys :: "define_table \<Rightarrow> string list" where
  "dict_keys d = map fst d"

section \<open>Exceptions\<close>

text \<open>
  \<open>PreprocessorError(error_message, filename, line_number, line)\<close> and the built-in
  exceptions that can leave \<open>preprocess\<close>.
\<close>

datatype exn =
    PreprocessorError string "pyval option" "pyval option" "string option"
  | KeyError string
  | IOError string
  | AttributeError string

section \<open>Regular expressions of the statement patterns\<close>

text \<open>
  The fragment of Python's \<open>re\<close> that the patterns of the source use, matched by
  backtracking with Python's priorities: a greedy repetition tries the longest match
  first, a lazy one the shortest, an alternation its branches from left to right.
\<close>

definition whitespace :: string where
  "whitespace = [CHR '' '', CHR 0x09, CHR ''\<newline>'', CHR 0x0D, CHR 0x0C, CHR 0x0B]"

datatype cclass = Ws | NonWs | Dot | OneOf string

fun in_cls :: "cclass \<Rightarrow> char \<Rightarrow> bool" where
  "in_cls Ws c = (c \<in> set whitespace)"
| "in_cls NonWs c = (c \<notin> set whitespace)"
| "in_cls Dot c = (c \<noteq> CHR ''\<newline>'')"
| "in_cls (OneOf cs) c = (c \<in> set cs)"

text \<open>
  \<open>Bol\<close> is \<open>^\<close>, \<open>Eol\<close> is \<open>$\<close>, \<open>Lit w\<close> the escaped text \<open>w\<close>, \<open>One C\<close> one character
  of a class, \<open>Star C\<close> and \<open>Plus C\<close> the greedy \<open>C*\<close> and \<open>C+\<close>,
  \<open>Alts g ws\<close> the named group \<open>(?P<g>w1|w2|...)\<close>, \<open>Lazy g C k acc\<close> the named lazy
  group \<open>(?P<g>C*?)\<close> (\<open>k = 0\<close>) or \<open>(?P<g>C+?)\<close> (\<open>k = 1\<close>) with the text \<open>acc\<close> it has
  taken so far, and \<open>Opt rs\<close> the greedy optional group \<open>(rs)?\<close>.
\<close>

datatype rx =
    Bol | Eol | Lit string | One cclass | Star cclass | Plus cclass
  | Alts string "string list"
  | Lazy string cclass nat string
  | Opt "rx list"

type_synonym caps = "(string \<times> string) list"

fun rx_weight :: "rx \<Rightarrow> nat" where
  "rx_weight (Alts g ws) = Suc (length ws)"
| "rx_weight (Opt rs) = Suc (sum_list (map rx_weight rs))"
| "rx_weight r = 1"

function rmatch :: "rx list \<Rightarrow> bool \<Rightarrow> string \<Rightarrow> caps \<Rightarrow> caps option" where
  "rmatch [] b s cs = Some cs"
| "rmatch (Bol # rs) b s cs = (if b then rmatch rs b s cs else None)"
| "rmatch (Eol # rs) b s cs =
     (if s = [] \<or> s = [CHR ''\<newline>''] then rmatch rs b s cs else None)"
| "rmatch (Lit w # rs) b s cs =
     (if prefix w s then rmatch rs (b \<and> w = []) (drop (length w) s) cs else None)"
| "rmatch (One C # rs) b s cs =
     (case s of [] \<Rightarrow> None
      | c # t \<Rightarrow> if in_cls C c then rmatch rs False t cs else None)"
| "rmatch (Star C # rs) b s cs =
     (case s of [] \<Rightarrow> rmatch rs b s cs
      | c # t \<Rightarrow>
          if in_cls C c
          then (case rmatch (Star C # rs) False t cs of
                  Some r \<Rightarrow> Some r
                | None \<Rightarrow> rmatch rs b s cs)
          else rmatch rs b s cs)"
| "rmatch (Plus C # rs) b s cs =
     (case s of [] \<Rightarrow> None
      | c # t \<Rightarrow> if in_cls C c then rmatch (Star C # rs) False t cs else None)"
| "rmatch (Alts g [] # rs) b s cs = None"
| "rmatch (Alts g (w # ws) # rs) b s cs =
     (case (if prefix w s
            then rmatch rs (b \<and> w = []) (drop (length w) s) (cs @ [(g, w)])
            else None) of
        Some r \<Rightarrow> Some r
      | None \<Rightarrow> rmatch (Alts g ws # rs) b s cs)"
| "rmatch (Lazy g C k acc # rs) b s cs =
     (case (if k = 0 then rmatch rs b s (cs @ [(g, acc)]) else None) of
        Some r \<Rightarrow> Some r
      | None \<Rightarrow>
         (case s of [] \<Rightarrow> None
          | c # t \<Rightarrow>
              if in_cls C c then rmatch (Lazy g C (k - 1) (acc @ [c]) # rs) False t cs
              else None))"
| "rmatch (Opt q # rs) b s cs =
     (case rmatch (q @ rs) b s cs of
        Some r \<Rightarrow> Some r
      | None \<Rightarrow> rmatch rs b s cs)"
  by pat_completeness auto
termination
  by (relation "measures [\<lambda>(rs, b, s, cs). sum_list (map rx_weight rs),
                          \<lambda>(rs, b, s, cs). length s]") auto

text \<open>\<open>regex.match(s)\<close>: anchored at the start of \<open>s\<close>.\<close>

definition re_match :: "rx list \<Rightarrow> string \<Rightarrow> caps option" where
  "re_match p s = rmatch p True s []"

text \<open>\<open>regex.search(s)\<close>: a match starting anywhere in \<open>s\<close>.\<close>

definition re_search :: "rx list \<Rightarrow> string \<Rightarrow> bool" where
  "re_search p s = list_ex (\<lambda>k. rmatch p (k = 0) (drop k s) [] \<noteq> None) [0..<Suc (length s)]"

section \<open>Comment groups and statement patterns\<close>

text \<open>
  A comment prefix or suffix is a string or a compiled regex
  (\<open>hasattr(cprefix, "pattern")\<close>).
\<close>

datatype delim = DStr string | DRe "rx list"

definition letters :: string where
  "letters = ''abcdefghijklmnopqrstuvwxyzABCDEFGHIJKLMNOPQRSTUVWXYZ''"

text \<open>\<open>_commentGroups\<close>; the Fortran prefix is \<open>re.compile(r'^[a-zA-Z*$]\s*')\<close>.\<close>

definition commentGroups :: "(string \<times> (delim \<times> delim) list) list" where
  "commentGroups =
    [(''Python'', [(DStr ''#'', DStr [])]),
     (''Perl'', [(DStr ''#'', DStr [])]),
     (''PHP'', [(DStr ''/*'', DStr ''*/''), (DStr ''//'', DStr []), (DStr ''#'', DStr [])]),
     (''Ruby'', [(DStr ''#'', DStr [])]),
     (''Tcl'', [(DStr ''#'', DStr [])]),
     (''Shell'', [(DStr ''#'', DStr [])]),
     (''XML'', [(DStr ''<!--'', DStr ''-->''), (DStr ''/*'', DStr ''*/''), (DStr ''//'', DStr [])]),
     (''HTML'', [(DStr ''<!--'', DStr ''-->''), (DStr ''/*'', DStr ''*/''), (DStr ''//'', DStr [])]),
     (''Makefile'', [(DStr ''#'', DStr [])]),
     (''JavaScript'', [(DStr ''/*'', DStr ''*/''), (DStr ''//'', DStr [])]),
     (''CSS'', [(DStr ''/*'', DStr ''*/'')]),
     (''C'', [(DStr ''/*'', DStr ''*/'')]),
     (''C++'', [(DStr ''/*'', DStr ''*/''), (DStr ''//'', DStr [])]),
     (''Java'', [(DStr ''/*'', DStr ''*/''), (DStr ''//'', DStr [])]),
     (''C#'', [(DStr ''/*'', DStr ''*/''), (DStr ''//'', DStr [])]),
     (''IDL'', [(DStr ''/*'', DStr ''*/''), (DStr ''//'', DStr [])]),
     (''Text'', [(DStr ''#'', DStr [])]),
     (''Fortran'', [(DRe [Bol, One (OneOf (letters @ ''*$'')), Star Ws], DStr []),
                    (DStr ''!'', DStr [])]),
     (''TeX'', [(DStr ''%'', DStr [])])]"

text \<open>The list \<open>stmts\<close> of \<open>preprocess\<close>, in its order.\<close>

definition stmts :: "rx list list" where
  "stmts =
    [[Lit ''#'', Star Ws, Alts ''op'' [''if'', ''elif'', ''ifdef'', ''ifndef''], Plus Ws,
        Lazy ''expr'' Dot 0 []],
     [Lit ''#'', Star Ws, Alts ''op'' [''else'', ''endif'']],
     [Lit ''#'', Star Ws, Alts ''op'' [''error''], Plus Ws, Lazy ''error'' Dot 0 []],
     [Lit ''#'', Star Ws, Alts ''op'' [''define''], Plus Ws, Lazy ''var'' NonWs 0 [],
        Opt [Plus Ws, Lazy ''val'' Dot 1 []]],
     [Lit ''#'', Star Ws, Alts ''op'' [''undef''], Plus Ws, Lazy ''var'' NonWs 0 []],
     [Lit ''#'', Star Ws, Alts ''op'' [''include''], Plus Ws, Lit [CHR 0x22],
        Lazy ''fname'' Dot 0 [], Lit [CHR 0x22]],
     [Lit ''#'', Star Ws, Alts ''op'' [''include''], Plus Ws, Lazy ''var'' NonWs 1 []]]"

text \<open>
  The patterns: for every statement, for every comment group, prefix, statement, suffix.
  A string prefix \<open>p\<close> gives \<open>^\s*p\s*\<close>, a string suffix \<open>s\<close> gives \<open>\s*s\s*$\<close>.
\<close>

definition patterns :: "(delim \<times> delim) list \<Rightarrow> rx list list" where
  "patterns cgs =
     concat (map (\<lambda>stmt. map (\<lambda>(cprefix, csuffix).
        (case cprefix of DRe p \<Rightarrow> p | DStr w \<Rightarrow> [Bol, Star Ws, Lit w, Star Ws])
        @ stmt
        @ (case csuffix of DRe p \<Rightarrow> p | DStr w \<Rightarrow> [Star Ws, Lit w, Star Ws, Eol])) cgs) stmts)"

text \<open>
  The loop \<open>for stmtRe in stmtRes: match = stmtRe.match(line); if match: break\<close>:
  the groups of the first pattern that matches, or \<open>None\<close>.
\<close>

fun first_match :: "rx list list \<Rightarrow> string \<Rightarrow> caps option" where
  "first_match [] line = None"
| "first_match (p # ps) line =
     (case re_match p line of Some m \<Rightarrow> Some m | None \<Rightarrow> first_match ps line)"

text \<open>
  \<open>match.group(name)\<close> of a group that took part in the match; \<open>None\<close> for one that did
  not (only \<open>val\<close> can be left out by a pattern that has it).
\<close>

definition group :: "caps \<Rightarrow> string \<Rightarrow> string option" where
  "group m name = map_of m name"

definition group_str :: "caps \<Rightarrow> string \<Rightarrow> string" where
  "group_str m name = (case map_of m name of Some s \<Rightarrow> s | None \<Rightarrow> [])"

section \<open>String helpers\<close>

text \<open>\<open>s.replace(old, new)\<close>: every non-overlapping occurrence, from the left.\<close>

function replace_scan :: "string \<Rightarrow> string \<Rightarrow> string \<Rightarrow> string" where
  "replace_scan old new s =
     (if old = [] \<or> s = [] then s
      else if prefix old s then new @ replace_scan old new (drop (length old) s)
      else hd s # replace_scan old new (tl s))"
  by pat_completeness auto
termination
  by (relation "measure (\<lambda>(old, new, s). length s)") auto

declare replace_scan.simps [simp del]

definition py_replace :: "string \<Rightarrow> string \<Rightarrow> string \<Rightarrow> string" where
  "py_replace old new s =
     (if old = [] then new @ concat (map (\<lambda>c. c # new) s) else replace_scan old new s)"

text \<open>\<open>s.find(sub) != -1\<close>.\<close>

definition contains :: "string \<Rightarrow> string \<Rightarrow> bool" where
  "contains s sub = list_ex (\<lambda>k. prefix sub (drop k s)) [0..<Suc (length s)]"

definition sq :: string where
  "sq = [CHR 0x27]"

definition dq :: string where
  "dq = [CHR 0x22]"

definition nl :: string where
  "nl = [CHR ''\<newline>'']"

text \<open>\<open>s.lower()\<close> on ASCII.\<close>

definition lower :: "string \<Rightarrow> string" where
  "lower s = map (\<lambda>c. case map_of (zip ''ABCDEFGHIJKLMNOPQRSTUVWXYZ''
                                         ''abcdefghijklmnopqrstuvwxyz'') c of
                        Some l \<Rightarrow> l | None \<Rightarrow> c) s"

text \<open>\<open>s.split(".")[-1]\<close>: the text after the last dot.\<close>

definition after_last_dot :: "string \<Rightarrow> string" where
  "after_last_dot s = rev (takeWhile (\<lambda>c. c \<noteq> CHR ''.'') (rev s))"

section \<open>The environment of the engine\<close>

text \<open>
  What \<open>preprocess\<close> takes from outside the module: Python's \<open>eval\<close>, the file system
  and \<open>os.path\<close>.  \<open>py_eval expr defines\<close> is
  \<open>eval(expr, {'defined': lambda v: v in defines}, defines)\<close>, giving \<open>Inl (str(ex))\<close> when
  it raises the exception \<open>ex\<close>; it is taken to leave \<open>defines\<close> as it is.
  \<open>py_eval_literal val\<close> is \<open>eval(val, {}, {})\<close>, \<open>None\<close> when it raises.
  \<open>read_lines path\<close> is \<open>open(path, 'r').readlines()\<close>, \<open>None\<close> when the file cannot be
  opened; the bytes of the file are the concatenation of its lines.
  \<open>platform_win\<close> is \<open>sys.platform.startswith("win")\<close> and \<open>repr_list\<close> is \<open>"%r"\<close> of a list
  of strings.
\<close>

record env =
  py_eval :: "string \<Rightarrow> define_table \<Rightarrow> string + pyval"
  py_eval_literal :: "string \<Rightarrow> pyval option"
  read_lines :: "string \<Rightarrow> string list option"
  path_exists :: "string \<Rightarrow> bool"
  abspath :: "string \<Rightarrow> string"
  normpath :: "string \<Rightarrow> string"
  path_join :: "string \<Rightarrow> string \<Rightarrow> string"
  dirname :: "string \<Rightarrow> string"
  basename :: "string \<Rightarrow> string"
  platform_win :: bool
  repr_list :: "string list \<Rightarrow> string"

section \<open>Content types\<close>

text \<open>
  \<open>ContentTypesRegistry\<close>: the three dicts that \<open>_load\<close> fills.  A list is in the order
  in which the dict is iterated.
\<close>

record registry =
  suffixMap :: "(string \<times> string) list"
  regexMap :: "(rx list \<times> string) list"
  filenameMap :: "(string \<times> string) list"

text \<open>
  The registry that \<open>_loadContentType(DEFAULT_CONTENT_TYPES)\<close> builds (no
  \<open>content.types\<close> file beside the module, no configuration files).  The one regex is
  \<open>^[Mm]akefile.*$\<close>.
\<close>

definition default_registry :: registry where
  "default_registry = \<lparr>
     suffixMap =
       [(''.py'', ''Python''), (''.pyw'', ''Python''), (''.pl'', ''Perl''), (''.rb'', ''Ruby''),
        (''.tcl'', ''Tcl''), (''.xml'', ''XML''), (''.kpf'', ''XML''), (''.xul'', ''XML''),
        (''.rdf'', ''XML''), (''.xslt'', ''XML''), (''.xsl'', ''XML''), (''.wxs'', ''XML''),
        (''.wxi'', ''XML''), (''.htm'', ''HTML''), (''.html'', ''HTML''), (''.xhtml'', ''XML''),
        (''.php'', ''PHP''), (''.js'', ''JavaScript''), (''.css'', ''CSS''), (''.c'', ''C++''),
        (''.cpp'', ''C++''), (''.cxx'', ''C++''), (''.cc'', ''C++''), (''.h'', ''C++''),
        (''.hpp'', ''C++''), (''.hxx'', ''C++''), (''.hh'', ''C++''), (''.idl'', ''IDL''),
        (''.txt'', ''Text''), (''.f'', ''Fortran''), (''.f90'', ''Fortran''), (''.sh'', ''Shell''),
        (''.csh'', ''Shell''), (''.ksh'', ''Shell''), (''.zsh'', ''Shell''), (''.java'', ''Java''),
        (''.cs'', ''C#''), (''.tex'', ''TeX''), (''.ksf'', ''Python''), (''.kkf'', ''Text'')],
     regexMap =
       [([Bol, One (OneOf ''Mm''), Lit ''akefile'', Star Dot, Eol], ''Makefile'')],
     filenameMap = [] \<rparr>"

text \<open>\<open>not contentType\<close>: \<open>None\<close> and the empty string are false.\<close>

definition no_type :: "string option \<Rightarrow> bool" where
  "no_type ct = (ct = None \<or> ct = Some [])"

text \<open>\<open>ContentTypesRegistry.get_content_type\<close>.\<close>

definition get_content_type :: "env \<Rightarrow> registry \<Rightarrow> string \<Rightarrow> exn + string option" where
  "get_content_type E R path =
    (let base = basename E path;
         contentType0 = None;
         contentType1 =
           (if no_type contentType0 \<and> map_of (filenameMap R) base \<noteq> None
            then map_of (filenameMap R) base else contentType0);
         contentType2 =
           (if no_type contentType1 \<and> CHR ''.'' \<in> set base
            then (let suffix0 = ''.'' @ after_last_dot base;
                      suffix = (if platform_win E then lower suffix0 else suffix0)
                  in if map_of (suffixMap R) suffix \<noteq> None
                     then map_of (suffixMap R) suffix else contentType1)
            else contentType1);
         contentType3 =
           (if no_type contentType2
            then (case find (\<lambda>(regex, ctype). re_search regex base) (regexMap R) of
                    Some (regex, ctype) \<Rightarrow> Some ctype
                  | None \<Rightarrow> contentType2)
            else contentType2)
     in case read_lines E path of
          None \<Rightarrow> Inl (IOError path)
        | Some content \<Rightarrow>
            Inr (if prefix ''<?xml'' (concat content) then Some ''XML'' else contentType3))"

section \<open>The preprocessing engine\<close>

datatype mode = SKIP | EMIT

text \<open>
  A state is \<open>(emit-or-skip, have-emitted-in-this-if-block, have-seen-else-in-this-if-block)\<close>;
  the two flags are the 0 and 1 of the source.
\<close>

type_synonym frame = "mode \<times> bool \<times> bool"

text \<open>
  What is shared by the recursive calls of \<open>preprocess\<close>: the define table, what has been
  written to \<open>fout\<close> (one entry for each \<open>fout.write\<close>) and \<open>_preprocessed_files\<close>.
\<close>

record pstate =
  defs :: define_table
  fout :: "string list"
  preprocessed_files :: "string list"

text \<open>
  The arguments that \<open>preprocess\<close> hands down unchanged.  The output is a stream; the
  opening of an output path, and with it \<open>should_force_overwrite\<close>, is outside the model.
\<close>

record config =
  should_keep_lines :: bool
  include_paths :: "string list"
  should_substitute :: bool
  content_types_registry :: "registry option"

text \<open>\<open>PreprocessorError(msg, defines['__FILE__'], defines['__LINE__'], line)\<close>.\<close>

definition error_at :: "define_table \<Rightarrow> string \<Rightarrow> string option \<Rightarrow> exn" where
  "error_at d msg line =
     (case dict_get d ''__FILE__'' of
        None \<Rightarrow> KeyError ''__FILE__''
      | Some f \<Rightarrow>
          (case dict_get d ''__LINE__'' of
             None \<Rightarrow> KeyError ''__LINE__''
           | Some l \<Rightarrow> PreprocessorError msg (Some f) (Some l) line))"

text \<open>\<open>_evaluate\<close>.\<close>

definition evaluate :: "env \<Rightarrow> string \<Rightarrow> define_table \<Rightarrow> exn + pyval" where
  "evaluate E expr d =
     (case py_eval E expr d of
        Inr rv \<Rightarrow> Inr rv
      | Inl msg0 \<Rightarrow>
          (let msg =
             (if prefix (''name '' @ sq) msg0 \<and> suffix (sq @ '' is not defined'') msg0
              then (let varName = take (length msg0 - 16 - 6) (drop 6 msg0)
                    in if contains expr (''defined('' @ varName @ '')'')
                       then msg0 @ '' (perhaps you want '' @ dq @ ''defined('' @ sq @ varName
                              @ sq @ '')'' @ dq @ '' instead of '' @ dq @ ''defined(''
                              @ varName @ '')'' @ dq @ '')''
                       else msg0)
              else if prefix ''invalid syntax'' msg0
              then ''invalid syntax: '' @ sq @ expr @ sq
              else msg0)
           in Inl (error_at d msg None)))"

text \<open>\<open>states and states[-1][0] == SKIP\<close>.\<close>

definition skipping :: "frame list \<Rightarrow> bool" where
  "skipping states = (states \<noteq> [] \<and> fst (last states) = SKIP)"

text \<open>
  The substitution of the defines into an emitted line:
  \<open>for name in reversed(sorted(defines, key=len)): sline = sline.replace(name, str(defines[name]))\<close>.
\<close>

definition substitute_line :: "define_table \<Rightarrow> string \<Rightarrow> string" where
  "substitute_line d line =
     foldl (\<lambda>sline name.
              py_replace name (py_str (case dict_get d name of Some v \<Rightarrow> v | None \<Rightarrow> PNone)) sline)
       line (rev (sort_key length (dict_keys d)))"

type_synonym recursion = "string \<Rightarrow> pstate \<Rightarrow> (exn + pstate) option"

text \<open>
  The file that an \<open>include\<close> statement names: \<open>defines[var]\<close> or the quoted name,
  looked for in the directory of the including file and then on the include path.
\<close>

definition resolve_include :: "env \<Rightarrow> config \<Rightarrow> string \<Rightarrow> caps \<Rightarrow> pstate \<Rightarrow> exn + string" where
  "resolve_include E C infile m ps =
     (case (if group m ''var'' \<noteq> None
            then (case dict_get (defs ps) (group_str m ''var'') of
                    None \<Rightarrow> Inl (KeyError (group_str m ''var''))
                  | Some (PStr f) \<Rightarrow> Inr f
                  | Some v \<Rightarrow> Inl (AttributeError (py_str v)))
            else Inr (group_str m ''fname'')) of
        Inl e \<Rightarrow> Inl e
      | Inr f \<Rightarrow>
          (case find (path_exists E)
                  (map (\<lambda>d. normpath E (path_join E d f)) (dirname E infile # include_paths C)) of
             None \<Rightarrow>
               Inl (PreprocessorError
                 (''could not find #include'' @ sq @ ''d file '' @ dq @ f @ dq
                    @ '' on include path: '' @ repr_list E (include_paths C))
                 None None None)
           | Some fname \<Rightarrow> Inr fname))"

text \<open>
  The \<open>include\<close> statement in an emitting section.  \<open>rec fname ps\<close> is the recursive call
  \<open>preprocess(fname, fout, defines, ..., _preprocessed_files=_preprocessed_files)\<close>.
\<close>

definition include_stmt :: "env \<Rightarrow> config \<Rightarrow> recursion \<Rightarrow> string \<Rightarrow> caps \<Rightarrow> pstate
    \<Rightarrow> (exn + pstate) option" where
  "include_stmt E C rec infile m ps =
     (case resolve_include E C infile m ps of
        Inl e \<Rightarrow> Some (Inl e)
      | Inr fname \<Rightarrow> rec fname ps)"

text \<open>The branch of the loop body for a line that is a preprocessor statement.\<close>

definition process_stmt :: "env \<Rightarrow> config \<Rightarrow> recursion \<Rightarrow> string \<Rightarrow> string \<Rightarrow> caps
    \<Rightarrow> frame list \<times> pstate \<Rightarrow> (exn + frame list \<times> pstate) option" where
  "process_stmt E C rec infile line m st =
    (let states = fst st; ps = snd st; d = defs ps; op = group_str m ''op'' in
     if op = ''define'' then
       (if \<not> skipping states
        then (let var = group_str m ''var'';
                  val = (case group m ''val'' of
                           None \<Rightarrow> PNone
                         | Some v \<Rightarrow> (case py_eval_literal E v of Some x \<Rightarrow> x | None \<Rightarrow> PStr v))
              in Some (Inr (states, ps\<lparr>defs := dict_set d var val\<rparr>)))
        else Some (Inr st))
     else if op = ''undef'' then
       (if \<not> skipping states
        then Some (Inr (states, ps\<lparr>defs := dict_del d (group_str m ''var'')\<rparr>))
        else Some (Inr st))
     else if op = ''include'' then
       (if \<not> skipping states
        then (case include_stmt E C rec infile m ps of
                None \<Rightarrow> None
              | Some (Inl e) \<Rightarrow> Some (Inl e)
              | Some (Inr ps') \<Rightarrow> Some (Inr (states, ps')))
        else Some (Inr st))
     else if op \<in> {''if'', ''ifdef'', ''ifndef''} then
       (let expr = (if op = ''if'' then group_str m ''expr''
                    else if op = ''ifdef'' then ''defined('' @ sq @ group_str m ''expr'' @ sq @ '')''
                    else ''not defined('' @ sq @ group_str m ''expr'' @ sq @ '')'')
        in if skipping states then Some (Inr (states @ [(SKIP, False, False)], ps))
           else (case evaluate E expr d of
                   Inr v \<Rightarrow>
                     if truthy v then Some (Inr (states @ [(EMIT, True, False)], ps))
                     else Some (Inr (states @ [(SKIP, False, False)], ps))
                 | Inl (KeyError k) \<Rightarrow>
                     Some (Inl (error_at d (''use of undefined variable in #'' @ op @ '' stmt'')
                                  (Some line)))
                 | Inl e \<Rightarrow> Some (Inl e)))
     else if op = ''elif'' then
       (if states = []
        then Some (Inl (error_at d ''#elif stmt without leading #if stmt'' (Some line)))
        else if snd (snd (last states))
        then Some (Inl (error_at d ''illegal #elif after #else in same #if block'' (Some line)))
        else if fst (snd (last states))
        then Some (Inr (butlast states @ [(SKIP, True, False)], ps))
        else if butlast states \<noteq> [] \<and> fst (last (butlast states)) = SKIP
        then Some (Inr (butlast states @ [(SKIP, False, False)], ps))
        else (case evaluate E (group_str m ''expr'') d of
                Inr v \<Rightarrow>
                  if truthy v then Some (Inr (butlast states @ [(EMIT, True, False)], ps))
                  else Some (Inr (butlast states @ [(SKIP, False, False)], ps))
              | Inl e \<Rightarrow> Some (Inl e)))
     else if op = ''else'' then
       (if states = []
        then Some (Inl (error_at d ''#else stmt without leading #if stmt'' (Some line)))
        else if snd (snd (last states))
        then Some (Inl (error_at d ''illegal #else after #else in same #if block'' (Some line)))
        else if fst (snd (last states))
        then Some (Inr (butlast states @ [(SKIP, True, True)], ps))
        else if butlast states \<noteq> [] \<and> fst (last (butlast states)) = SKIP
        then Some (Inr (butlast states @ [(SKIP, False, True)], ps))
        else Some (Inr (butlast states @ [(EMIT, True, True)], ps)))
     else if op = ''endif'' then
       (if states = []
        then Some (Inl (error_at d ''#endif stmt without leading #ifstmt'' (Some line)))
        else Some (Inr (butlast states, ps)))
     else if op = ''error'' then
       (if \<not> skipping states
        then Some (Inl (error_at d (''#error: '' @ group_str m ''error'') (Some line)))
        else Some (Inr st))
     else Some (Inr st))"

text \<open>The branch of the loop body for a content line.\<close>

definition process_content :: "config \<Rightarrow> string \<Rightarrow> frame list \<times> pstate
    \<Rightarrow> exn + frame list \<times> pstate" where
  "process_content C line st =
    (let states = fst st; ps = snd st in
     if states = [] then Inl (error_at (defs ps) ''superfluous #endif before this line'' None)
     else if fst (last states) = EMIT
     then (let sline = (if should_substitute C then substitute_line (defs ps) line else line)
           in Inr (states, ps\<lparr>fout := fout ps @ [sline]\<rparr>))
     else if should_keep_lines C then Inr (states, ps\<lparr>fout := fout ps @ [nl]\<rparr>)
     else Inr st)"

text \<open>
  One turn of \<open>for line in lines\<close>, with \<open>lineNum\<close> already incremented: the line number is
  stored, the line is matched against \<open>stmtRes\<close>, and a statement or a content line is
  processed.
\<close>

definition process_line :: "env \<Rightarrow> config \<Rightarrow> recursion \<Rightarrow> rx list list \<Rightarrow> string \<Rightarrow> nat
    \<Rightarrow> string \<Rightarrow> frame list \<times> pstate \<Rightarrow> (exn + frame list \<times> pstate) option" where
  "process_line E C rec stmtRes infile lineNum line st =
    (let ps = snd st;
         st1 = (fst st, ps\<lparr>defs := dict_set (defs ps) ''__LINE__'' (PInt (int lineNum))\<rparr>)
     in case first_match stmtRes line of
          Some m \<Rightarrow>
            (case process_stmt E C rec infile line m st1 of
               None \<Rightarrow> None
             | Some (Inl e) \<Rightarrow> Some (Inl e)
             | Some (Inr (states, ps')) \<Rightarrow>
                 Some (Inr (states, if should_keep_lines C
                                    then ps'\<lparr>fout := fout ps' @ [nl]\<rparr> else ps')))
        | None \<Rightarrow> Some (process_content C line st1))"

text \<open>The loop; \<open>lineNum\<close> is the number of lines already read.\<close>

fun run_lines :: "env \<Rightarrow> config \<Rightarrow> recursion \<Rightarrow> rx list list \<Rightarrow> string \<Rightarrow> nat
    \<Rightarrow> string list \<Rightarrow> frame list \<times> pstate \<Rightarrow> (exn + frame list \<times> pstate) option" where
  "run_lines E C rec stmtRes infile lineNum [] st = Some (Inr st)"
| "run_lines E C rec stmtRes infile lineNum (line # rest) st =
     (case process_line E C rec stmtRes infile (Suc lineNum) line st of
        None \<Rightarrow> None
      | Some (Inl e) \<Rightarrow> Some (Inl e)
      | Some (Inr st') \<Rightarrow> run_lines E C rec stmtRes infile (Suc lineNum) rest st')"

text \<open>
  The states of the loop after each line that was processed without an exception, in
  order (a view of the same run, used to state properties of its intermediate states).
\<close>

fun trace_lines :: "env \<Rightarrow> config \<Rightarrow> recursion \<Rightarrow> rx list list \<Rightarrow> string \<Rightarrow> nat
    \<Rightarrow> string list \<Rightarrow> frame list \<times> pstate \<Rightarrow> (frame list \<times> pstate) list" where
  "trace_lines E C rec stmtRes infile lineNum [] st = []"
| "trace_lines E C rec stmtRes infile lineNum (line # rest) st =
     (case process_line E C rec stmtRes infile (Suc lineNum) line st of
        Some (Inr st') \<Rightarrow> st' # trace_lines E C rec stmtRes infile (Suc lineNum) rest st'
      | _ \<Rightarrow> [])"

text \<open>The check of the state stack after the loop.\<close>

definition check_end :: "frame list \<times> pstate \<Rightarrow> exn + pstate" where
  "check_end st =
     (if length (fst st) > 1 then Inl (error_at (defs (snd st)) ''unterminated #if block'' None)
      else if length (fst st) < 1
      then Inl (error_at (defs (snd st)) ''superfluous #endif on or before this line'' None)
      else Inr (snd st))"

text \<open>
  The recursion guard: \<open>absInfile in _preprocessed_files\<close>.
\<close>

definition already_preprocessed :: "env \<Rightarrow> string \<Rightarrow> pstate \<Rightarrow> bool" where
  "already_preprocessed E infile ps =
     (normpath E (abspath E infile) \<in> set (preprocessed_files ps))"

definition recursive_include :: "string \<Rightarrow> exn" where
  "recursive_include infile =
     PreprocessorError (''detected recursive #include of '' @ sq @ infile @ sq) None None None"

text \<open>
  The content type, the compiled statement patterns and the lines of the input file.
\<close>

definition open_file :: "env \<Rightarrow> config \<Rightarrow> string \<Rightarrow> string option
    \<Rightarrow> exn + rx list list \<times> string list" where
  "open_file E C infile content_type =
     (case (case content_type of
              Some ct \<Rightarrow> Inr ct
            | None \<Rightarrow>
                (let reg = (case content_types_registry C of
                              Some r \<Rightarrow> r | None \<Rightarrow> default_registry)
                 in case get_content_type E reg infile of
                      Inl e \<Rightarrow> Inl e
                    | Inr None \<Rightarrow> Inr ''Text''
                    | Inr (Some ct) \<Rightarrow> Inr ct)) of
        Inl e \<Rightarrow> Inl e
      | Inr ct \<Rightarrow>
          (case map_of commentGroups ct of
             None \<Rightarrow>
               Inl (PreprocessorError
                 (''don'' @ sq @ ''t know comment delimiters for content type '' @ sq @ ct @ sq
                    @ '' (file '' @ sq @ infile @ sq @ '')'') None None None)
           | Some cgs \<Rightarrow>
              (case read_lines E infile of
                 None \<Rightarrow> Inl (IOError infile)
               | Some lines \<Rightarrow> Inr (patterns cgs, lines))))"

text \<open>
  The state in which the loop starts: the path of the file is in
  \<open>_preprocessed_files\<close>, \<open>defines['__FILE__']\<close> is the file, and the stack holds the
  bottom state.
\<close>

definition enter_file :: "env \<Rightarrow> string \<Rightarrow> pstate \<Rightarrow> frame list \<times> pstate" where
  "enter_file E infile ps =
     ([(EMIT, False, False)],
      ps\<lparr>preprocessed_files := preprocessed_files ps @ [abspath E infile],
         defs := dict_set (defs ps) ''__FILE__'' (PStr infile)\<rparr>)"

text \<open>
  The body of \<open>preprocess\<close>, with the recursive call as the parameter \<open>rec\<close>.
\<close>

definition preprocess_body :: "env \<Rightarrow> config \<Rightarrow> recursion \<Rightarrow> string \<Rightarrow> string option
    \<Rightarrow> pstate \<Rightarrow> (exn + pstate) option" where
  "preprocess_body E C rec infile content_type ps =
    (if already_preprocessed E infile ps then Some (Inl (recursive_include infile))
     else
      (case open_file E C infile content_type of
         Inl e \<Rightarrow> Some (Inl e)
       | Inr (stmtRes, lines) \<Rightarrow>
          (case run_lines E C rec stmtRes infile 0 lines (enter_file E infile ps) of
             None \<Rightarrow> None
           | Some (Inl e) \<Rightarrow> Some (Inl e)
           | Some (Inr st) \<Rightarrow> Some (check_end st))))"

text \<open>
  \<open>preprocess\<close>.  The first argument bounds the depth of the recursion through
  \<open>#include\<close>; \<open>None\<close> means that the bound was reached.
\<close>

fun preprocess :: "env \<Rightarrow> config \<Rightarrow> nat \<Rightarrow> string \<Rightarrow> string option \<Rightarrow> pstate
    \<Rightarrow> (exn + pstate) option" where
  "preprocess E C 0 infile content_type ps = None"
| "preprocess E C (Suc n) infile content_type ps =
     preprocess_body E C (\<lambda>fname ps'. preprocess E C n fname None ps') infile content_type ps"

section \<open>A concrete environment\<close>

text \<open>
  A POSIX environment over a finite table of files, used to run the engine on concrete
  inputs.  \<open>posix_dirname\<close>, \<open>posix_basename\<close> and \<open>posix_join\<close> are the functions of
  \<open>posixpath\<close>.  The files of the examples have absolute, normalised paths, on which
  \<open>abspath\<close> and \<open>normpath\<close> are the identity.
\<close>

definition posix_dirname :: "string \<Rightarrow> string" where
  "posix_dirname p =
     (let head = rev (dropWhile (\<lambda>c. c \<noteq> CHR ''/'') (rev p))
      in if head \<noteq> [] \<and> head \<noteq> replicate (length head) (CHR ''/'')
         then rev (dropWhile (\<lambda>c. c = CHR ''/'') (rev head)) else head)"

definition posix_basename :: "string \<Rightarrow> string" where
  "posix_basename p = rev (takeWhile (\<lambda>c. c \<noteq> CHR ''/'') (rev p))"

definition posix_join :: "string \<Rightarrow> string \<Rightarrow> string" where
  "posix_join a b =
     (if prefix ''/'' b then b
      else if a = [] \<or> last a = CHR ''/'' then a @ b
      else a @ ''/'' @ b)"

text \<open>
  An evaluator that agrees with Python's \<open>eval\<close> on the expressions of the examples: the
  literals \<open>0\<close> and \<open>1\<close>, \<open>defined('NAME')\<close>, \<open>not defined('NAME')\<close>, and a name that is not
  a Python built-in, which is looked up in the define table.
\<close>

definition demo_eval :: "string \<Rightarrow> define_table \<Rightarrow> string + pyval" where
  "demo_eval expr d =
     (if expr = ''0'' then Inr (PInt 0)
      else if expr = ''1'' then Inr (PInt 1)
      else if prefix (''defined('' @ sq) expr \<and> suffix (sq @ '')'') expr
      then Inr (PBool (take (length expr - 11) (drop 9 expr) \<in> set (dict_keys d)))
      else if prefix (''not defined('' @ sq) expr \<and> suffix (sq @ '')'') expr
      then Inr (PBool (take (length expr - 15) (drop 13 expr) \<notin> set (dict_keys d)))
      else (case dict_get d expr of
              Some v \<Rightarrow> Inr v
            | None \<Rightarrow> Inl (''name '' @ sq @ expr @ sq @ '' is not defined'')))"

text \<open>
  A literal evaluator that agrees with \<open>eval(val, {}, {})\<close> on the values of the examples:
  one decimal digit, a text in single quotes, and a bare name (which raises).
\<close>

definition demo_eval_literal :: "string \<Rightarrow> pyval option" where
  "demo_eval_literal val =
     (if length val = 1 \<and> hd val \<in> set ''0123456789''
      then Some (PInt (int (length (takeWhile (\<lambda>c. c \<noteq> hd val) ''0123456789''))))
      else if 2 \<le> length val \<and> hd val = CHR 0x27 \<and> last val = CHR 0x27
      then Some (PStr (butlast (tl val)))
      else None)"

definition demo_repr_list :: "string list \<Rightarrow> string" where
  "demo_repr_list xs =
     ''['' @ concat (map (\<lambda>(i, x). (if i = 0 then [] else '', '') @ sq @ x @ sq)
                      (zip [0..<length xs] xs)) @ '']''"

definition demo_env :: "(string \<times> string list) list \<Rightarrow> env" where
  "demo_env files = \<lparr>
     py_eval = demo_eval,
     py_eval_literal = demo_eval_literal,
     read_lines = map_of files,
     path_exists = (\<lambda>p. map_of files p \<noteq> None),
     abspath = (\<lambda>p. p),
     normpath = (\<lambda>p. p),
     path_join = posix_join,
     dirname = posix_dirname,
     basename = posix_basename,
     platform_win = False,
     repr_list = demo_repr_list \<rparr>"

text \<open>The defaults of \<open>preprocess\<close> with the two switches.\<close>

definition demo_config :: "bool \<Rightarrow> bool \<Rightarrow> config" where
  "demo_config keep subst = \<lparr>
     should_keep_lines = keep,
     include_paths = [],
     should_substitute = subst,
     content_types_registry = None \<rparr>"

text \<open>The state of a first call: the caller's defines, nothing written, no file seen.\<close>

definition start :: "define_table \<Rightarrow> pstate" where
  "start d = \<lparr> defs = d, fout = [], preprocessed_files = [] \<rparr>"

section \<open>Chains of includes\<close>

text \<open>
  The recursive call made by the statement on line \<open>k + 1\<close> of \<open>infile\<close>, when the run of
  \<open>preprocess\<close> on \<open>infile\<close> gets there: the lines before it are processed without an
  exception, the line is an \<open>include\<close> statement in an emitting section, and its file is
  found.  The result is the file and the shared state the call is made with.
\<close>

definition include_call :: "env \<Rightarrow> config \<Rightarrow> recursion \<Rightarrow> string \<Rightarrow> string option \<Rightarrow> pstate
    \<Rightarrow> nat \<Rightarrow> (string \<times> pstate) option" where
  "include_call E C rec infile content_type ps k =
    (if already_preprocessed E infile ps then None
     else
      (case open_file E C infile content_type of
         Inl e \<Rightarrow> None
       | Inr (stmtRes, lines) \<Rightarrow>
          if k < length lines
          then (case run_lines E C rec stmtRes infile 0 (take k lines) (enter_file E infile ps) of
                  Some (Inr st) \<Rightarrow>
                    (let ps1 = (snd st)\<lparr>defs := dict_set (defs (snd st)) ''__LINE__''
                                                (PInt (int (Suc k)))\<rparr>
                     in case first_match stmtRes (lines ! k) of
                          Some m \<Rightarrow>
                            if group_str m ''op'' = ''include'' \<and> \<not> skipping (fst st)
                            then (case resolve_include E C infile m ps1 of
                                    Inr fname \<Rightarrow> Some (fname, ps1)
                                  | Inl e \<Rightarrow> None)
                            else None
                        | None \<Rightarrow> None)
                | _ \<Rightarrow> None)
          else None))"

text \<open>
  A chain of includes: starting from the call of \<open>preprocess\<close> on \<open>infile\<close>, follow the
  \<open>include\<close> statements on the lines \<open>ks\<close> (one line index for each file of the chain).
  The result is the call at the end of the chain (its depth bound, file, content type and
  state) and the absolute paths of the files of the chain, which are all still being
  processed when that call is made.
\<close>

fun include_chain :: "env \<Rightarrow> config \<Rightarrow> nat \<Rightarrow> string \<Rightarrow> string option \<Rightarrow> pstate \<Rightarrow> nat list
    \<Rightarrow> (nat \<times> string \<times> string option \<times> pstate \<times> string list) option" where
  "include_chain E C n infile ct ps [] = Some (n, infile, ct, ps, [])"
| "include_chain E C 0 infile ct ps (k # ks) = None"
| "include_chain E C (Suc n) infile ct ps (k # ks) =
     (case include_call E C (\<lambda>fname ps'. preprocess E C n fname None ps') infile ct ps k of
        None \<Rightarrow> None
      | Some (fname, ps') \<Rightarrow>
          (case include_chain E C n fname None ps' ks of
             None \<Rightarrow> None
           | Some (n', g, ct', psg, active) \<Rightarrow> Some (n', g, ct', psg, abspath E infile # active)))"

section \<open>Example inputs\<close>

text \<open>
  The files of the examples; a \<open>.txt\<close> file has the content type \<open>Text\<close>, whose comments
  start with \<open>#\<close>.
\<close>

definition endif_then_if :: "(string \<times> string list) list" where
  "endif_then_if = [(''/w/a.txt'', [''# #endif'' @ nl, ''# #if 1'' @ nl])]"

definition include_then_if :: "(string \<times> string list) list" where
  "include_then_if =
     [(''/w/a.txt'', [''# #include '' @ dq @ ''b.txt'' @ dq @ nl, ''# #if BAR'' @ nl]),
      (''/w/b.txt'', [''hello'' @ nl])]"

definition xml_in_html :: "(string \<times> string list) list" where
  "xml_in_html = [(''/w/page.html'', [''<?xml version='' @ dq @ ''1.0'' @ dq @ ''?>'' @ nl])]"

definition chain_file :: "(string \<times> string list) list" where
  "chain_file =
     [(''/w/a.txt'', [''# #if 1'' @ nl, ''first'' @ nl, ''# #if 0'' @ nl, ''inner'' @ nl,
                      ''# #endif'' @ nl, ''# #elif 0'' @ nl, ''second'' @ nl,
                      ''# #elif 1'' @ nl, ''third'' @ nl, ''# #else'' @ nl, ''fourth'' @ nl,
                      ''# #endif'' @ nl])]"

definition nested_skip :: "(string \<times> string list) list" where
  "nested_skip =
     [(''/w/a.txt'', [''# #if 0'' @ nl, ''# #if UNDEFINED'' @ nl, ''inner'' @ nl,
                      ''# #endif'' @ nl, ''# #endif'' @ nl])]"

definition include_two_lines :: "(string \<times> string list) list" where
  "include_two_lines =
     [(''/w/a.txt'', [''# #include '' @ dq @ ''b.txt'' @ dq @ nl]),
      (''/w/b.txt'', [''hello'' @ nl, ''world'' @ nl])]"

definition keep_lines_file :: "(string \<times> string list) list" where
  "keep_lines_file =
     [(''/w/a.txt'', [''# #if 0'' @ nl, ''# #include '' @ dq @ ''missing.txt'' @ dq @ nl,
                      ''dropped'' @ nl, ''# #else'' @ nl, ''kept'' @ nl, ''# #endif'' @ nl])]"

definition multi_line_value :: "(string \<times> string list) list" where
  "multi_line_value = [(''/w/a.txt'', [''X'' @ nl])]"

definition nested_defines :: "(string \<times> string list) list" where
  "nested_defines =
     [(''/w/a.txt'', [''# #define AB '' @ sq @ ''A'' @ sq @ nl, ''# #define A 5'' @ nl,
                      ''AB'' @ nl])]"



definition include_cycle :: "(string \<times> string list) list" where
  "include_cycle =
     [(''/w/a.txt'', [''# #include '' @ dq @ ''b.txt'' @ dq @ nl]),
      (''/w/b.txt'', [''# #include '' @ dq @ ''a.txt'' @ dq @ nl])]"


text \<open>The statement patterns of the content type \<open>Text\<close>.\<close>

definition text_patterns :: "rx list list" where
  "text_patterns = patterns [(DStr ''#'', DStr [])]"

text \<open>
  A shared state inside a file of the examples: \<open>__FILE__\<close> and \<open>__LINE__\<close> are the only
  defines.
\<close>

definition in_file :: "string \<Rightarrow> nat \<Rightarrow> string list \<Rightarrow> string list \<Rightarrow> pstate" where
  "in_file path lineNum written_so_far files =
     \<lparr> defs = [(''__FILE__'', PStr path), (''__LINE__'', PInt (int lineNum))],
       fout = written_so_far, preprocessed_files = files \<rparr>"

section \<open>Notions used to state the properties\<close>

text \<open>The top of the stack emits (\<open>states[-1][0] == EMIT\<close>).\<close>

definition emitting :: "frame list \<Rightarrow> bool" where
  "emitting states = (states \<noteq> [] \<and> fst (last states) = EMIT)"

text \<open>The state of index \<open>k\<close> and every state above it skip.\<close>

definition skip_above :: "nat \<Rightarrow> frame list \<Rightarrow> bool" where
  "skip_above k states = (k < length states \<and> list_all (\<lambda>f. fst f = SKIP) (drop k states))"

text \<open>The operator of a line that is a statement.\<close>

definition stmt_op :: "rx list list \<Rightarrow> string \<Rightarrow> string option" where
  "stmt_op stmtRes line =
     (case first_match stmtRes line of Some m \<Rightarrow> Some (group_str m ''op'') | None \<Rightarrow> None)"

text \<open>
  The depth of the if-blocks opened by a list of lines and not closed in it, from the
  depth \<open>d\<close>; \<open>None\<close> when an \<open>#elif\<close>, \<open>#else\<close> or \<open>#endif\<close> of the lines belongs to a block
  that was not opened in them.
\<close>

fun nesting :: "rx list list \<Rightarrow> nat \<Rightarrow> string list \<Rightarrow> nat option" where
  "nesting stmtRes d [] = Some d"
| "nesting stmtRes d (l # ls) =
     (case stmt_op stmtRes l of
        None \<Rightarrow> nesting stmtRes d ls
      | Some op \<Rightarrow>
          if op \<in> {''if'', ''ifdef'', ''ifndef''} then nesting stmtRes (Suc d) ls
          else if op \<in> {''elif'', ''else''}
          then (if d = 0 then None else nesting stmtRes d ls)
          else if op = ''endif''
          then (if d = 0 then None else nesting stmtRes (d - 1) ls)
          else nesting stmtRes d ls)"

text \<open>
  The body of a branch: content lines, statements and whole if-blocks, every block that
  is opened in it is closed in it.
\<close>

definition nested :: "rx list list \<Rightarrow> string list \<Rightarrow> bool" where
  "nested stmtRes body = (nesting stmtRes 0 body = Some 0)"

text \<open>The statements that start a branch of a chain, and those that start a later branch.\<close>

definition opens_branch :: "rx list list \<Rightarrow> string \<Rightarrow> bool" where
  "opens_branch stmtRes line =
     (case stmt_op stmtRes line of
        Some op \<Rightarrow> op \<in> {''if'', ''ifdef'', ''ifndef'', ''elif'', ''else''}
      | None \<Rightarrow> False)"

definition next_branch :: "rx list list \<Rightarrow> string \<Rightarrow> bool" where
  "next_branch stmtRes line =
     (case stmt_op stmtRes line of Some op \<Rightarrow> op \<in> {''elif'', ''else''} | None \<Rightarrow> False)"

text \<open>The lines of a list of branches, each one its statement and its body.\<close>

definition seg_lines :: "(string \<times> string list) list \<Rightarrow> string list" where
  "seg_lines segs = concat (map (\<lambda>(d, b). d # b) segs)"

text \<open>What \<open>k\<close> lines that are not emitted write: a blank line each when lines are kept.\<close>

definition blank_lines :: "config \<Rightarrow> nat \<Rightarrow> string list" where
  "blank_lines C k = replicate (if should_keep_lines C then k else 0) nl"

text \<open>Each line of a run with the state of the loop in which it is processed.\<close>

definition line_states :: "env \<Rightarrow> config \<Rightarrow> recursion \<Rightarrow> rx list list \<Rightarrow> string \<Rightarrow> nat
    \<Rightarrow> string list \<Rightarrow> frame list \<times> pstate \<Rightarrow> (string \<times> frame list \<times> pstate) list" where
  "line_states E C rec stmtRes infile lineNum lines st =
     zip lines (st # trace_lines E C rec stmtRes infile lineNum lines st)"

text \<open>The line is an \<open>include\<close> statement and the state does not skip it.\<close>

definition executes_include :: "rx list list \<Rightarrow> string \<Rightarrow> frame list \<times> pstate \<Rightarrow> bool" where
  "executes_include stmtRes line st =
     (case first_match stmtRes line of
        Some m \<Rightarrow> group_str m ''op'' = ''include'' \<and> \<not> skipping (fst st)
      | None \<Rightarrow> False)"

text \<open>
  What a line contributes to the output when lines are kept and nothing is substituted:
  a content line in an emitting section is written as it is, every other line gives a
  blank line.
\<close>

definition kept_line :: "rx list list \<Rightarrow> string \<Rightarrow> frame list \<times> pstate \<Rightarrow> string" where
  "kept_line stmtRes line st =
     (if first_match stmtRes line = None \<and> \<not> skipping (fst st) then line else nl)"

text \<open>
  The lines of a text as \<open>readlines()\<close> returns them: no line is empty, a newline is the
  last character of its line, and every line but the last one ends with a newline.
\<close>

definition one_line :: "string \<Rightarrow> bool" where
  "one_line l = (l \<noteq> [] \<and> list_all (\<lambda>c. c \<noteq> CHR 0x0A) (butlast l))"

definition well_split :: "string list \<Rightarrow> bool" where
  "well_split ls = (list_all one_line ls \<and> list_all (\<lambda>l. last l = CHR 0x0A) (butlast ls))"

text \<open>
  The number of lines of a text: its newlines, and the last line when it does not end
  with one.
\<close>

definition count_lines :: "string \<Rightarrow> nat" where
  "count_lines t =
     length (filter (\<lambda>c. c = CHR 0x0A) t) + (if t \<noteq> [] \<and> last t \<noteq> CHR 0x0A then 1 else 0)"


section \<open>The statement branch, one operator at a time\<close>

lemma stmt_skipped:
  assumes "group_str m ''op'' \<in> {''define'', ''undef'', ''include'', ''error''}"
    and "skipping (fst st)"
  shows "process_stmt E C rec infile line m st = Some (Inr st)"
proof -
  from assms(1) consider "group_str m ''op'' = ''define''" | "group_str m ''op'' = ''undef''"
    | "group_str m ''op'' = ''include''" | "group_str m ''op'' = ''error''" by blast
  then show ?thesis
    using assms(2) by cases (simp_all add: process_stmt_def Let_def)
qed

lemma stmt_if_skipped:
  assumes "group_str m ''op'' \<in> {''if'', ''ifdef'', ''ifndef''}"
    and "skipping (fst st)"
  shows "process_stmt E C rec infile line m st = Some (Inr (fst st @ [(SKIP, False, False)], snd st))"
proof -
  from assms(1) consider "group_str m ''op'' = ''if''" | "group_str m ''op'' = ''ifdef''"
    | "group_str m ''op'' = ''ifndef''" by blast
  then show ?thesis
    using assms(2) by cases (simp_all add: process_stmt_def Let_def)
qed

lemma stmt_elif:
  "group_str m ''op'' = ''elif'' \<Longrightarrow>
     process_stmt E C rec infile line m st =
       (if fst st = []
        then Some (Inl (error_at (defs (snd st)) ''#elif stmt without leading #if stmt'' (Some line)))
        else if snd (snd (last (fst st)))
        then Some (Inl (error_at (defs (snd st)) ''illegal #elif after #else in same #if block''
                          (Some line)))
        else if fst (snd (last (fst st)))
        then Some (Inr (butlast (fst st) @ [(SKIP, True, False)], snd st))
        else if butlast (fst st) \<noteq> [] \<and> fst (last (butlast (fst st))) = SKIP
        then Some (Inr (butlast (fst st) @ [(SKIP, False, False)], snd st))
        else (case evaluate E (group_str m ''expr'') (defs (snd st)) of
                Inr v \<Rightarrow>
                  if truthy v then Some (Inr (butlast (fst st) @ [(EMIT, True, False)], snd st))
                  else Some (Inr (butlast (fst st) @ [(SKIP, False, False)], snd st))
              | Inl e \<Rightarrow> Some (Inl e)))"
  by (simp add: process_stmt_def Let_def)

lemma stmt_else:
  "group_str m ''op'' = ''else'' \<Longrightarrow>
     process_stmt E C rec infile line m st =
       (if fst st = []
        then Some (Inl (error_at (defs (snd st)) ''#else stmt without leading #if stmt'' (Some line)))
        else if snd (snd (last (fst st)))
        then Some (Inl (error_at (defs (snd st)) ''illegal #else after #else in same #if block''
                          (Some line)))
        else if fst (snd (last (fst st)))
        then Some (Inr (butlast (fst st) @ [(SKIP, True, True)], snd st))
        else if butlast (fst st) \<noteq> [] \<and> fst (last (butlast (fst st))) = SKIP
        then Some (Inr (butlast (fst st) @ [(SKIP, False, True)], snd st))
        else Some (Inr (butlast (fst st) @ [(EMIT, True, True)], snd st)))"
  by (simp add: process_stmt_def Let_def)

lemma stmt_endif:
  "group_str m ''op'' = ''endif'' \<Longrightarrow>
     process_stmt E C rec infile line m st =
       (if fst st = []
        then Some (Inl (error_at (defs (snd st)) ''#endif stmt without leading #ifstmt'' (Some line)))
        else Some (Inr (butlast (fst st), snd st)))"
  by (simp add: process_stmt_def Let_def)

lemma stmt_other:
  "group_str m ''op'' \<notin> {''define'', ''undef'', ''include'', ''if'', ''ifdef'', ''ifndef'',
       ''elif'', ''else'', ''endif'', ''error''} \<Longrightarrow>
     process_stmt E C rec infile line m st = Some (Inr st)"
  by (simp add: process_stmt_def Let_def)

lemma not_EMIT: "(md \<noteq> EMIT) = (md = SKIP)"
  by (cases md) auto


lemma stmt_line:
  assumes "process_line E C rec stmtRes infile n l st = Some (Inr st1)"
    and "first_match stmtRes l = Some m"
  obtains st2 where
    "process_stmt E C rec infile l m
       (fst st, (snd st)\<lparr>defs := dict_set (defs (snd st)) ''__LINE__'' (PInt (int n))\<rparr>)
       = Some (Inr st2)"
    and "st1 = (fst st2, if should_keep_lines C then (snd st2)\<lparr>fout := fout (snd st2) @ [nl]\<rparr>
                         else snd st2)"
  using assms by (auto simp add: process_line_def Let_def split: option.splits sum.splits)

lemma run_lines_append:
  "run_lines E C rec stmtRes infile n (xs @ ys) st =
     (case run_lines E C rec stmtRes infile n xs st of
        None \<Rightarrow> None
      | Some (Inl e) \<Rightarrow> Some (Inl e)
      | Some (Inr st1) \<Rightarrow> run_lines E C rec stmtRes infile (n + length xs) ys st1)"
  by (induction xs arbitrary: n st) (auto split: option.splits sum.splits)

lemma run_lines_Cons:
  assumes "run_lines E C rec stmtRes infile n (l # ls) st = Some (Inr st')"
  obtains st1 where "process_line E C rec stmtRes infile (Suc n) l st = Some (Inr st1)"
    and "run_lines E C rec stmtRes infile (Suc n) ls st1 = Some (Inr st')"
  using assms by (auto split: option.splits sum.splits)

lemma preprocess_run:
  assumes "preprocess E C (Suc n) infile ct ps = Some (Inr ps')"
  obtains stmtRes lines st where "open_file E C infile ct = Inr (stmtRes, lines)"
    and "run_lines E C (\<lambda>fname p. preprocess E C n fname None p) stmtRes infile 0 lines
           (enter_file E infile ps) = Some (Inr st)"
    and "ps' = snd st"
proof -
  from assms obtain stmtRes lines st where
    o: "open_file E C infile ct = Inr (stmtRes, lines)"
    and r: "run_lines E C (\<lambda>fname p. preprocess E C n fname None p) stmtRes infile 0 lines
           (enter_file E infile ps) = Some (Inr st)"
    and c: "check_end st = Inr ps'"
    by (auto simp add: preprocess_body_def split: if_splits sum.splits option.splits)
  from c have "ps' = snd st" by (auto simp add: check_end_def split: if_splits)
  with o r that show ?thesis by blast
qed

section \<open>The effect of a line on the stack\<close>

lemma line_stack_content:
  assumes "process_line E C rec stmtRes infile n l st = Some (Inr st1)"
    and "first_match stmtRes l = None"
  shows "fst st1 = fst st"
  using assms
  by (auto simp add: process_line_def process_content_def Let_def split: if_splits)

lemma stmt_stack_if:
  assumes "process_stmt E C rec infile l m st = Some (Inr st1)"
    and "group_str m ''op'' \<in> {''if'', ''ifdef'', ''ifndef''}"
  shows "fst st1 \<noteq> [] \<and> butlast (fst st1) = fst st \<and>
         (fst (last (fst st1)) = EMIT \<longrightarrow> fst (snd (last (fst st1))))"
proof -
  from assms(2) consider "group_str m ''op'' = ''if''" | "group_str m ''op'' = ''ifdef''"
    | "group_str m ''op'' = ''ifndef''" by blast
  then show ?thesis
    using assms(1)
    by cases (auto simp add: process_stmt_def Let_def split: if_splits sum.splits exn.splits)
qed

lemma stmt_stack_branch:
  assumes "process_stmt E C rec infile l m st = Some (Inr st1)"
    and "group_str m ''op'' \<in> {''elif'', ''else''}"
  shows "fst st \<noteq> [] \<and> fst st1 \<noteq> [] \<and> butlast (fst st1) = butlast (fst st) \<and>
         (fst (last (fst st1)) = EMIT \<longrightarrow> fst (snd (last (fst st1))))"
proof -
  from assms(2) consider (ei) "group_str m ''op'' = ''elif''" | (el) "group_str m ''op'' = ''else''"
    by blast
  then show ?thesis
  proof cases
    case ei
    with assms(1) show ?thesis by (auto simp add: stmt_elif split: if_splits sum.splits)
  next
    case el
    with assms(1) show ?thesis by (auto simp add: stmt_else split: if_splits)
  qed
qed

lemma stmt_stack_endif:
  assumes "process_stmt E C rec infile l m st = Some (Inr st1)"
    and "group_str m ''op'' = ''endif''"
  shows "fst st \<noteq> [] \<and> fst st1 = butlast (fst st)"
  using assms by (auto simp add: stmt_endif split: if_splits)

lemma stmt_stack_other:
  assumes "process_stmt E C rec infile l m st = Some (Inr st1)"
    and "group_str m ''op'' \<notin> {''if'', ''ifdef'', ''ifndef'', ''elif'', ''else'', ''endif''}"
  shows "fst st1 = fst st"
proof -
  consider (d) "group_str m ''op'' = ''define''" | (u) "group_str m ''op'' = ''undef''"
    | (i) "group_str m ''op'' = ''include''" | (e) "group_str m ''op'' = ''error''"
    | (o) "group_str m ''op'' \<notin> {''define'', ''undef'', ''include'', ''if'', ''ifdef'', ''ifndef'',
       ''elif'', ''else'', ''endif'', ''error''}"
    using assms(2) by blast
  then show ?thesis
  proof cases
    case d
    with assms(1) show ?thesis
      by (auto simp add: process_stmt_def Let_def split: if_splits)
  next
    case u
    with assms(1) show ?thesis
      by (auto simp add: process_stmt_def Let_def split: if_splits)
  next
    case i
    with assms(1) show ?thesis
      by (auto simp add: process_stmt_def Let_def split: if_splits option.splits sum.splits)
  next
    case e
    with assms(1) show ?thesis
      by (auto simp add: process_stmt_def Let_def split: if_splits)
  next
    case o
    from stmt_other[OF o] assms(1) show ?thesis by auto
  qed
qed

text \<open>The effect of one line on the stack, by the operator of the line.\<close>

lemma line_stack:
  assumes p: "process_line E C rec stmtRes infile n l st = Some (Inr st1)"
  shows "(stmt_op stmtRes l = None \<longrightarrow> fst st1 = fst st)
       \<and> (\<forall>op. stmt_op stmtRes l = Some op \<longrightarrow>
            (op \<in> {''if'', ''ifdef'', ''ifndef''} \<longrightarrow>
               fst st1 \<noteq> [] \<and> butlast (fst st1) = fst st \<and>
               (fst (last (fst st1)) = EMIT \<longrightarrow> fst (snd (last (fst st1)))))
          \<and> (op \<in> {''elif'', ''else''} \<longrightarrow>
               fst st \<noteq> [] \<and> fst st1 \<noteq> [] \<and> butlast (fst st1) = butlast (fst st) \<and>
               (fst (last (fst st1)) = EMIT \<longrightarrow> fst (snd (last (fst st1)))))
          \<and> (op = ''endif'' \<longrightarrow> fst st \<noteq> [] \<and> fst st1 = butlast (fst st))
          \<and> (op \<notin> {''if'', ''ifdef'', ''ifndef'', ''elif'', ''else'', ''endif''} \<longrightarrow>
               fst st1 = fst st))"
proof (cases "first_match stmtRes l")
  case None
  with line_stack_content[OF p None] show ?thesis by (simp add: stmt_op_def)
next
  case (Some m)
  let ?st0 = "(fst st, (snd st)\<lparr>defs := dict_set (defs (snd st)) ''__LINE__'' (PInt (int n))\<rparr>)"
  from stmt_line[OF p Some] obtain st2 where
    q: "process_stmt E C rec infile l m ?st0 = Some (Inr st2)"
    and s1: "st1 = (fst st2, if should_keep_lines C then (snd st2)\<lparr>fout := fout (snd st2) @ [nl]\<rparr>
                             else snd st2)"
    by blast
  from s1 have s: "fst st1 = fst st2" by simp
  have op: "stmt_op stmtRes l = Some (group_str m ''op'')" using Some by (simp add: stmt_op_def)
  from stmt_stack_if[OF q] stmt_stack_branch[OF q] stmt_stack_endif[OF q] stmt_stack_other[OF q]
  show ?thesis unfolding op s by simp
qed

section \<open>A section that is skipped\<close>

lemma list_all_drop:
  "list_all P (drop k xs) = (\<forall>i. k \<le> i \<and> i < length xs \<longrightarrow> P (xs ! i))"
  (is "?L = ?R")
proof
  assume l: ?L
  show ?R
  proof (intro allI impI)
    fix i assume a: "k \<le> i \<and> i < length xs"
    then have "i - k < length (drop k xs)" by auto
    with l have "P (drop k xs ! (i - k))" by (simp add: list_all_length)
    with a show "P (xs ! i)" by simp
  qed
next
  assume r: ?R
  show ?L unfolding list_all_length
  proof (intro allI impI)
    fix n assume n: "n < length (drop k xs)"
    then have "k \<le> k + n \<and> k + n < length xs" by auto
    with r have "P (xs ! (k + n))" by blast
    with n show "P (drop k xs ! n)" by simp
  qed
qed

lemma skip_above_iff:
  "skip_above k states =
     (k < length states \<and> (\<forall>i. k \<le> i \<and> i < length states \<longrightarrow> fst (states ! i) = SKIP))"
  by (simp add: skip_above_def list_all_drop)

lemma skip_above_skipping: "skip_above k states \<Longrightarrow> skipping states"
proof -
  assume a: "skip_above k states"
  then have k: "k < length states" by (simp add: skip_above_iff)
  then have ne: "states \<noteq> []" by auto
  from k a have "fst (states ! (length states - 1)) = SKIP"
    unfolding skip_above_iff by (auto dest!: spec[where x="length states - 1"])
  with ne show ?thesis by (simp add: skipping_def last_conv_nth)
qed

lemma skip_above_push: "skip_above k states \<Longrightarrow> skip_above k (states @ [(SKIP, a, b)])"
  by (auto simp add: skip_above_iff nth_append)

lemma skip_above_pop:
  "skip_above k states \<Longrightarrow> Suc k < length states \<Longrightarrow> skip_above k (butlast states)"
  by (auto simp add: skip_above_iff nth_butlast)

lemma skip_above_top:
  "skip_above k states \<Longrightarrow> skip_above k (butlast states @ [(SKIP, a, b)])"
  by (auto simp add: skip_above_iff nth_append nth_butlast)

lemma skip_above_below:
  assumes a: "skip_above k states" and k2: "Suc k < length states"
  shows "butlast states \<noteq> [] \<and> fst (last (butlast states)) = SKIP"
proof -
  from a have s: "\<And>i. k \<le> i \<Longrightarrow> i < length states \<Longrightarrow> fst (states ! i) = SKIP"
    by (auto simp add: skip_above_iff)
  from k2 have bl: "butlast states \<noteq> []" by (cases states rule: rev_cases) auto
  from k2 have "last (butlast states) = states ! (length states - 2)"
    using bl by (simp add: last_conv_nth nth_butlast numeral_2_eq_2)
  moreover from k2 have "fst (states ! (length states - 2)) = SKIP" by (intro s) arith+
  ultimately show ?thesis using bl by simp
qed

text \<open>A statement above a skipping state: nothing is evaluated, nothing is included.\<close>

lemma skip_stmt:
  assumes sa: "skip_above k (fst st)"
    and run: "process_stmt E C rec infile l m st = Some (Inr st1)"
    and deep: "group_str m ''op'' \<in> {''elif'', ''else'', ''endif''} \<longrightarrow> Suc k < length (fst st)"
  shows "skip_above k (fst st1) \<and> snd st1 = snd st \<and>
         process_stmt E' C rec' infile l m st = Some (Inr st1)"
proof -
  note sk = skip_above_skipping[OF sa]
  have ne: "fst st \<noteq> []" using sa by (auto simp add: skip_above_iff)
  consider (a) "group_str m ''op'' \<in> {''define'', ''undef'', ''include'', ''error''}"
    | (b) "group_str m ''op'' \<in> {''if'', ''ifdef'', ''ifndef''}"
    | (c) "group_str m ''op'' = ''elif''" | (d) "group_str m ''op'' = ''else''"
    | (e) "group_str m ''op'' = ''endif''"
    | (f) "group_str m ''op'' \<notin> {''define'', ''undef'', ''include'', ''if'', ''ifdef'', ''ifndef'',
       ''elif'', ''else'', ''endif'', ''error''}"
    by blast
  then show ?thesis
  proof cases
    case a
    from stmt_skipped[OF a sk] run sa show ?thesis by simp
  next
    case b
    from stmt_if_skipped[OF b sk] run sa skip_above_push[OF sa] show ?thesis
      by auto
  next
    case c
    with deep have k2: "Suc k < length (fst st)" by simp
    from run c ne skip_above_top[OF sa] skip_above_below[OF sa k2] show ?thesis
      by (auto simp add: stmt_elif split: if_splits)
  next
    case d
    with deep have k2: "Suc k < length (fst st)" by simp
    from run d ne skip_above_top[OF sa] skip_above_below[OF sa k2] show ?thesis
      by (auto simp add: stmt_else split: if_splits)
  next
    case e
    with deep have k2: "Suc k < length (fst st)" by simp
    from run e ne skip_above_pop[OF sa k2] show ?thesis
      by (auto simp add: stmt_endif split: if_splits)
  next
    case f
    from stmt_other[OF f] run sa show ?thesis by auto
  qed
qed

lemma skip_line:
  assumes sa: "skip_above k (fst st)"
    and p: "process_line E C rec stmtRes infile n l st = Some (Inr st1)"
    and deep: "\<forall>op. stmt_op stmtRes l = Some op \<longrightarrow> op \<in> {''elif'', ''else'', ''endif''}
                 \<longrightarrow> Suc k < length (fst st)"
  shows "skip_above k (fst st1) \<and>
         fout (snd st1) = fout (snd st) @ blank_lines C 1 \<and>
         process_line E' C rec' stmtRes infile n l st = Some (Inr st1)"
proof (cases "first_match stmtRes l")
  case None
  with sa p skip_above_skipping[OF sa] show ?thesis
    by (auto simp add: process_line_def process_content_def skipping_def Let_def blank_lines_def
          split: if_splits)
next
  case (Some m)
  let ?st0 = "(fst st, (snd st)\<lparr>defs := dict_set (defs (snd st)) ''__LINE__'' (PInt (int n))\<rparr>)"
  from stmt_line[OF p Some] obtain st2 where
    q: "process_stmt E C rec infile l m ?st0 = Some (Inr st2)"
    and s1: "st1 = (fst st2, if should_keep_lines C then (snd st2)\<lparr>fout := fout (snd st2) @ [nl]\<rparr>
                             else snd st2)"
    by blast
  have sa0: "skip_above k (fst ?st0)" using sa by simp
  have d0: "group_str m ''op'' \<in> {''elif'', ''else'', ''endif''} \<longrightarrow> Suc k < length (fst ?st0)"
    using deep Some by (simp add: stmt_op_def)
  from skip_stmt[OF sa0 q d0, of E' rec'] s1 Some show ?thesis
    by (cases st2) (auto simp add: process_line_def Let_def blank_lines_def)
qed

text \<open>One line of a body at nesting depth \<open>d\<close> above a stack of \<open>b\<close> states.\<close>

lemma nesting_Cons:
  assumes "nesting stmtRes d (l # ls) = Some d'"
  obtains d1 where "nesting stmtRes d [l] = Some d1" and "nesting stmtRes d1 ls = Some d'"
  using assms by (auto split: option.splits if_splits)

lemma nesting_line:
  assumes n1: "nesting stmtRes d [l] = Some d1"
    and p: "process_line E C rec stmtRes infile n l st = Some (Inr st1)"
    and len: "length (fst st) = b + d"
  shows "length (fst st1) = b + d1 \<and> take b (fst st1) = take b (fst st) \<and>
         (\<forall>op. stmt_op stmtRes l = Some op \<longrightarrow> op \<in> {''elif'', ''else'', ''endif''} \<longrightarrow> 0 < d)"
proof (cases "stmt_op stmtRes l")
  case None
  with line_stack[OF p] n1 len show ?thesis by simp
next
  case (Some op)
  note ls = line_stack[OF p, THEN conjunct2, rule_format, OF Some]
  consider (i) "op \<in> {''if'', ''ifdef'', ''ifndef''}" | (b) "op \<in> {''elif'', ''else''}"
    | (e) "op = ''endif''"
    | (o) "op \<notin> {''if'', ''ifdef'', ''ifndef'', ''elif'', ''else'', ''endif''}" by blast
  then show ?thesis
  proof cases
    case i
    with ls have ne: "fst st1 \<noteq> []" and bl: "butlast (fst st1) = fst st" by auto
    from ne bl have eq: "fst st1 = fst st @ [last (fst st1)]"
      using append_butlast_last_id[of "fst st1"] by simp
    from i Some n1 have d1: "d1 = Suc d" by auto
    have "length (fst st1) = b + d1" by (subst eq) (simp add: len d1)
    moreover have "take b (fst st1) = take b (fst st)" by (subst eq) (simp add: len)
    ultimately show ?thesis using i Some by auto
  next
    case b
    with ls have ne: "fst st \<noteq> []" and ne1: "fst st1 \<noteq> []"
      and bl: "butlast (fst st1) = butlast (fst st)" by auto
    from b Some n1 have d: "0 < d" and d1: "d1 = d" by (auto split: if_splits)
    from bl have "length (butlast (fst st1)) = length (butlast (fst st))" by simp
    with ne ne1 have l1: "length (fst st1) = length (fst st)"
      by (cases "fst st1" rule: rev_cases; cases "fst st" rule: rev_cases) auto
    from d len have "b < length (fst st)" by simp
    then have "take b (fst st) = take b (butlast (fst st))"
      and "take b (fst st1) = take b (butlast (fst st1))"
      using l1 by (simp_all add: take_butlast)
    with bl have "take b (fst st1) = take b (fst st)" by simp
    with l1 len d d1 Some show ?thesis by simp
  next
    case e
    with ls have ne: "fst st \<noteq> []" and bl: "fst st1 = butlast (fst st)" by auto
    from e Some n1 have d: "0 < d" and d1: "d1 = d - 1" by (auto split: if_splits)
    from d len have "b < length (fst st)" by simp
    with bl have "take b (fst st1) = take b (fst st)" by (simp add: take_butlast)
    with bl len d d1 Some show ?thesis by simp
  next
    case o
    with ls have "fst st1 = fst st" by auto
    moreover from o Some n1 have "d1 = d" by auto
    ultimately show ?thesis using len o Some by auto
  qed
qed

text \<open>A nested body leaves the stack below it as it is.\<close>

lemma nesting_run:
  assumes "nesting stmtRes d ls = Some d'"
    and "run_lines E C rec stmtRes infile n ls st = Some (Inr st')"
    and "length (fst st) = b + d"
  shows "length (fst st') = b + d' \<and> take b (fst st') = take b (fst st)"
  using assms
proof (induction ls arbitrary: d n st)
  case Nil
  then show ?case by simp
next
  case (Cons l ls)
  from nesting_Cons[OF Cons.prems(1)] obtain d1 where
    n1: "nesting stmtRes d [l] = Some d1" and n2: "nesting stmtRes d1 ls = Some d'" by blast
  from run_lines_Cons[OF Cons.prems(2)] obtain st1 where
    p: "process_line E C rec stmtRes infile (Suc n) l st = Some (Inr st1)"
    and r: "run_lines E C rec stmtRes infile (Suc n) ls st1 = Some (Inr st')"
    by blast
  from nesting_line[OF n1 p Cons.prems(3)] have
    l1: "length (fst st1) = b + d1" and t1: "take b (fst st1) = take b (fst st)" by auto
  from Cons.IH[OF n2 r l1] t1 show ?case by simp
qed

lemma nested_run:
  assumes "nested stmtRes body"
    and "run_lines E C rec stmtRes infile n body st = Some (Inr st')"
  shows "fst st' = fst st"
proof -
  from assms(1) have n: "nesting stmtRes 0 body = Some 0" by (simp add: nested_def)
  from nesting_run[OF n assms(2), of "length (fst st)"] have
    l: "length (fst st') = length (fst st)"
    and t: "take (length (fst st)) (fst st') = fst st" by simp_all
  from t l show ?thesis by (metis take_all order_refl)
qed

text \<open>A nested body above a skipping state writes blank lines and evaluates nothing.\<close>

lemma nesting_skip_run:
  assumes "nesting stmtRes d ls = Some d'"
    and "run_lines E C rec stmtRes infile n ls st = Some (Inr st')"
    and "length (fst st) = Suc k + d"
    and "skip_above k (fst st)"
  shows "skip_above k (fst st') \<and>
         fout (snd st') = fout (snd st) @ blank_lines C (length ls) \<and>
         run_lines E' C rec' stmtRes infile n ls st = Some (Inr st')"
  using assms
proof (induction ls arbitrary: d n st)
  case Nil
  then show ?case by (simp add: blank_lines_def)
next
  case (Cons l ls)
  from nesting_Cons[OF Cons.prems(1)] obtain d1 where
    n1: "nesting stmtRes d [l] = Some d1" and n2: "nesting stmtRes d1 ls = Some d'" by blast
  from run_lines_Cons[OF Cons.prems(2)] obtain st1 where
    p: "process_line E C rec stmtRes infile (Suc n) l st = Some (Inr st1)"
    and r: "run_lines E C rec stmtRes infile (Suc n) ls st1 = Some (Inr st')"
    by blast
  from nesting_line[OF n1 p Cons.prems(3)] have
    l1: "length (fst st1) = Suc k + d1"
    and deep0: "\<forall>op. stmt_op stmtRes l = Some op \<longrightarrow> op \<in> {''elif'', ''else'', ''endif''} \<longrightarrow> 0 < d"
    by auto
  from deep0 Cons.prems(3) have deep:
    "\<forall>op. stmt_op stmtRes l = Some op \<longrightarrow> op \<in> {''elif'', ''else'', ''endif''}
        \<longrightarrow> Suc k < length (fst st)"
    by auto
  from skip_line[OF Cons.prems(4) p deep, of E' rec'] have
    sa1: "skip_above k (fst st1)"
    and o1: "fout (snd st1) = fout (snd st) @ blank_lines C 1"
    and p': "process_line E' C rec' stmtRes infile (Suc n) l st = Some (Inr st1)"
    by auto
  from Cons.IH[OF n2 r l1 sa1] o1 p' show ?case
    by (auto simp add: blank_lines_def replicate_app_Cons_same)
qed

lemma nested_skip_run:
  assumes "nested stmtRes body"
    and "run_lines E C rec stmtRes infile n body st = Some (Inr st')"
    and "skipping (fst st)"
  shows "fout (snd st') = fout (snd st) @ blank_lines C (length body) \<and>
         run_lines E' C rec' stmtRes infile n body st = Some (Inr st')"
proof -
  from assms(1) have n: "nesting stmtRes 0 body = Some 0" by (simp add: nested_def)
  from assms(3) have ne: "fst st \<noteq> []" and top: "fst (last (fst st)) = SKIP"
    by (simp_all add: skipping_def)
  let ?k = "length (fst st) - 1"
  from ne have len: "length (fst st) = Suc ?k + 0" by simp
  have "\<And>i. ?k \<le> i \<Longrightarrow> i < length (fst st) \<Longrightarrow> fst (fst st ! i) = SKIP"
  proof -
    fix i assume "?k \<le> i" and "i < length (fst st)"
    then have "i = ?k" by arith
    with top ne show "fst (fst st ! i) = SKIP" by (simp add: last_conv_nth)
  qed
  with ne have sa: "skip_above ?k (fst st)" by (simp add: skip_above_iff)
  from nesting_skip_run[OF n assms(2) len sa, of E' rec'] show ?thesis by simp
qed

section \<open>The branches of a chain\<close>

lemma emitting_or_skipping: "states \<noteq> [] \<Longrightarrow> \<not> emitting states \<Longrightarrow> skipping states"
  by (simp add: emitting_def skipping_def not_EMIT)

lemma emitting_not_skipping: "emitting states \<Longrightarrow> \<not> skipping states"
  by (simp add: emitting_def skipping_def)

text \<open>The statement that opens a branch leaves a state that emits only with the flag set.\<close>

lemma branch_opened:
  assumes "process_line E C rec stmtRes infile n d st = Some (Inr st1)"
    and "opens_branch stmtRes d"
  shows "fst st1 \<noteq> [] \<and> (emitting (fst st1) \<longrightarrow> fst (snd (last (fst st1))))"
proof -
  from assms(2) obtain op where op: "stmt_op stmtRes d = Some op"
    and m: "op \<in> {''if'', ''ifdef'', ''ifndef'', ''elif'', ''else''}"
    by (auto simp add: opens_branch_def split: option.splits)
  from m consider (i) "op \<in> {''if'', ''ifdef'', ''ifndef''}" | (b) "op \<in> {''elif'', ''else''}"
    by blast
  then show ?thesis
  proof cases
    case i
    with line_stack[OF assms(1)] op show ?thesis unfolding emitting_def by blast
  next
    case b
    with line_stack[OF assms(1)] op show ?thesis unfolding emitting_def by blast
  qed
qed

text \<open>
  An \<open>#elif\<close> or \<open>#else\<close> of a block that has emitted: the block skips and keeps the flag,
  and nothing is evaluated.
\<close>

lemma flagged_branch:
  assumes p: "process_line E C rec stmtRes infile n d st = Some (Inr st1)"
    and nb: "next_branch stmtRes d"
    and fl: "fst st \<noteq> [] \<and> fst (snd (last (fst st)))"
  shows "fst st1 \<noteq> [] \<and> fst (snd (last (fst st1))) \<and> skipping (fst st1) \<and>
         process_line E' C rec' stmtRes infile n d st = Some (Inr st1)"
proof -
  from nb obtain m where fm: "first_match stmtRes d = Some m"
    and op: "group_str m ''op'' \<in> {''elif'', ''else''}"
    by (auto simp add: next_branch_def stmt_op_def split: option.splits)
  from op consider (ei) "group_str m ''op'' = ''elif''" | (el) "group_str m ''op'' = ''else''"
    by blast
  then show ?thesis
  proof cases
    case ei
    with p fm fl show ?thesis
      by (auto simp add: process_line_def Let_def stmt_elif skipping_def split: if_splits)
  next
    case el
    with p fm fl show ?thesis
      by (auto simp add: process_line_def Let_def stmt_else skipping_def split: if_splits)
  qed
qed

text \<open>The flag stays through the branches between two branches of a chain.\<close>

lemma flagged_branches:
  assumes "list_all (\<lambda>(d, b). next_branch stmtRes d \<and> nested stmtRes b) mid"
    and "run_lines E C rec stmtRes infile n (seg_lines mid) st = Some (Inr st')"
    and "fst st \<noteq> [] \<and> fst (snd (last (fst st)))"
  shows "fst st' \<noteq> [] \<and> fst (snd (last (fst st')))"
  using assms
proof (induction mid arbitrary: n st)
  case Nil
  then show ?case by (simp add: seg_lines_def)
next
  case (Cons seg mid)
  obtain d b where seg: "seg = (d, b)" by (cases seg)
  from Cons.prems(1) seg have nb: "next_branch stmtRes d" and ne: "nested stmtRes b"
    and rest: "list_all (\<lambda>(d, b). next_branch stmtRes d \<and> nested stmtRes b) mid"
    by simp_all
  have sl: "seg_lines (seg # mid) = d # (b @ seg_lines mid)" by (simp add: seg_lines_def seg)
  from Cons.prems(2) have r: "run_lines E C rec stmtRes infile n (d # (b @ seg_lines mid)) st
      = Some (Inr st')" unfolding sl .
  from run_lines_Cons[OF r] obtain st1 where
    p: "process_line E C rec stmtRes infile (Suc n) d st = Some (Inr st1)"
    and r1: "run_lines E C rec stmtRes infile (Suc n) (b @ seg_lines mid) st1 = Some (Inr st')"
    by blast
  from flagged_branch[OF p nb Cons.prems(3)] have f1: "fst st1 \<noteq> [] \<and> fst (snd (last (fst st1)))"
    by simp
  from r1 obtain st2 where
    r2: "run_lines E C rec stmtRes infile (Suc n) b st1 = Some (Inr st2)"
    and r3: "run_lines E C rec stmtRes infile (Suc n + length b) (seg_lines mid) st2 = Some (Inr st')"
    by (auto simp add: run_lines_append split: option.splits sum.splits)
  from nested_run[OF ne r2] f1 have f2: "fst st2 \<noteq> [] \<and> fst (snd (last (fst st2)))" by simp
  from Cons.IH[OF rest r3 f2] show ?case .
qed

section \<open>The list of preprocessed files only grows\<close>

lemma stmt_files:
  assumes "process_stmt E C rec infile l m st = Some (Inr st1)"
    and "\<And>f p p'. rec f p = Some (Inr p') \<Longrightarrow> prefix (preprocessed_files p) (preprocessed_files p')"
  shows "prefix (preprocessed_files (snd st)) (preprocessed_files (snd st1))"
proof (cases "group_str m ''op'' = ''include''")
  case True
  with assms show ?thesis
    by (auto simp add: process_stmt_def Let_def include_stmt_def
          split: if_splits option.splits sum.splits)
next
  case False
  with assms(1) show ?thesis
    by (auto simp add: process_stmt_def Let_def split: if_splits option.splits sum.splits exn.splits)
qed

lemma line_files:
  assumes "process_line E C rec stmtRes infile n l st = Some (Inr st1)"
    and "\<And>f p p'. rec f p = Some (Inr p') \<Longrightarrow> prefix (preprocessed_files p) (preprocessed_files p')"
  shows "prefix (preprocessed_files (snd st)) (preprocessed_files (snd st1))"
proof (cases "first_match stmtRes l")
  case None
  with assms(1) show ?thesis
    by (auto simp add: process_line_def process_content_def Let_def split: if_splits)
next
  case (Some m)
  from stmt_line[OF assms(1) Some] obtain st2 where
    p: "process_stmt E C rec infile l m
          (fst st, (snd st)\<lparr>defs := dict_set (defs (snd st)) ''__LINE__'' (PInt (int n))\<rparr>)
          = Some (Inr st2)"
    and s: "st1 = (fst st2, if should_keep_lines C then (snd st2)\<lparr>fout := fout (snd st2) @ [nl]\<rparr>
                            else snd st2)"
    by blast
  from stmt_files[OF p assms(2)] s show ?thesis by simp
qed

lemma run_files:
  assumes "run_lines E C rec stmtRes infile n ls st = Some (Inr st')"
    and "\<And>f p p'. rec f p = Some (Inr p') \<Longrightarrow> prefix (preprocessed_files p) (preprocessed_files p')"
  shows "prefix (preprocessed_files (snd st)) (preprocessed_files (snd st'))"
  using assms(1)
proof (induction ls arbitrary: n st)
  case Nil
  then show ?case by simp
next
  case (Cons l ls)
  from run_lines_Cons[OF Cons.prems] obtain st1 where
    p: "process_line E C rec stmtRes infile (Suc n) l st = Some (Inr st1)"
    and r: "run_lines E C rec stmtRes infile (Suc n) ls st1 = Some (Inr st')"
    by blast
  from line_files[OF p assms(2)] Cons.IH[OF r] show ?case
    by (rule prefix_order.trans)
qed

lemma preprocess_files:
  "preprocess E C n infile ct ps = Some (Inr ps') \<Longrightarrow>
     prefix (preprocessed_files ps @ [abspath E infile]) (preprocessed_files ps')"
proof (induction n arbitrary: infile ct ps ps')
  case 0
  then show ?case by simp
next
  case (Suc n)
  let ?rec = "\<lambda>fname p. preprocess E C n fname None p"
  have rec: "\<And>f p p'. ?rec f p = Some (Inr p') \<Longrightarrow>
               prefix (preprocessed_files p) (preprocessed_files p')"
    using Suc.IH by (meson prefix_order.trans prefixI)
  from preprocess_run[OF Suc.prems] obtain stmtRes lines st where
    r: "run_lines E C ?rec stmtRes infile 0 lines (enter_file E infile ps) = Some (Inr st)"
    and c: "ps' = snd st"
    by blast
  from run_files[OF r rec] c show ?case by (simp add: enter_file_def)
qed

lemma rec_files:
  "preprocess E C n f None p = Some (Inr p') \<Longrightarrow>
     prefix (preprocessed_files p) (preprocessed_files p')"
  using preprocess_files by (meson prefix_order.trans prefixI)

lemma guard_fails:
  "already_preprocessed E infile ps \<Longrightarrow>
     preprocess E C (Suc n) infile ct ps = Some (Inl (recursive_include infile))"
  by (simp add: preprocess_body_def)

section \<open>Failures at the end of a chain of includes\<close>

lemma include_call_files:
  assumes "include_call E C (\<lambda>fname p. preprocess E C n fname None p) infile ct ps k
             = Some (fname, ps1)"
  shows "prefix (preprocessed_files ps @ [abspath E infile]) (preprocessed_files ps1)"
proof -
  let ?rec = "\<lambda>fname p. preprocess E C n fname None p"
  from assms obtain stmtRes lines st where
    r: "run_lines E C ?rec stmtRes infile 0 (take k lines) (enter_file E infile ps) = Some (Inr st)"
    and p: "preprocessed_files ps1 = preprocessed_files (snd st)"
    by (auto simp add: include_call_def Let_def split: if_splits sum.splits option.splits)
  from run_files[OF r rec_files] p show ?thesis by (simp add: enter_file_def)
qed

lemma include_call_fails:
  assumes c: "include_call E C rec infile ct ps k = Some (fname, ps1)"
    and f: "rec fname ps1 = Some (Inl e)"
  shows "preprocess_body E C rec infile ct ps = Some (Inl e)"
proof -
  from c obtain stmtRes lines st m where
    g: "\<not> already_preprocessed E infile ps"
    and o: "open_file E C infile ct = Inr (stmtRes, lines)"
    and k: "k < length lines"
    and r: "run_lines E C rec stmtRes infile 0 (take k lines) (enter_file E infile ps)
              = Some (Inr st)"
    and m: "first_match stmtRes (lines ! k) = Some m"
    and op: "group_str m ''op'' = ''include''"
    and sk: "\<not> skipping (fst st)"
    and ps1: "ps1 = (snd st)\<lparr>defs := dict_set (defs (snd st)) ''__LINE__'' (PInt (int (Suc k)))\<rparr>"
    and res: "resolve_include E C infile m ps1 = Inr fname"
    by (auto simp add: include_call_def Let_def split: if_splits sum.splits option.splits)
  have "process_stmt E C rec infile (lines ! k) m (fst st, ps1) = Some (Inl e)"
    using op sk res f by (simp add: process_stmt_def Let_def include_stmt_def)
  then have pl: "process_line E C rec stmtRes infile (Suc k) (lines ! k) st = Some (Inl e)"
    using m ps1 by (simp add: process_line_def Let_def)
  from k have split: "lines = take k lines @ lines ! k # drop (Suc k) lines"
    by (simp add: id_take_nth_drop)
  have "run_lines E C rec stmtRes infile 0 (take k lines @ lines ! k # drop (Suc k) lines)
          (enter_file E infile ps) = Some (Inl e)"
    using r pl k by (simp add: run_lines_append min_def)
  with split have "run_lines E C rec stmtRes infile 0 lines (enter_file E infile ps) = Some (Inl e)"
    by simp
  with g o show ?thesis by (simp add: preprocess_body_def)
qed

lemma include_chain_files:
  "include_chain E C N infile ct ps ks = Some (n', g, ct', psg, active) \<Longrightarrow>
     set active \<subseteq> set (preprocessed_files psg) \<and>
     prefix (preprocessed_files ps) (preprocessed_files psg)"
proof (induction E C N infile ct ps ks arbitrary: n' g ct' psg active rule: include_chain.induct)
  case (1 E C n infile ct ps)
  then show ?case by simp
next
  case (2 E C infile ct ps k ks)
  then show ?case by simp
next
  case (3 E C n infile ct ps k ks)
  let ?rec = "\<lambda>fname p. preprocess E C n fname None p"
  from "3.prems" obtain fname ps1 act where
    c: "include_call E C ?rec infile ct ps k = Some (fname, ps1)"
    and ch: "include_chain E C n fname None ps1 ks = Some (n', g, ct', psg, act)"
    and a: "active = abspath E infile # act"
    by (auto split: option.splits)
  from "3.IH"[OF c refl ch] have s: "set act \<subseteq> set (preprocessed_files psg)"
    and p: "prefix (preprocessed_files ps1) (preprocessed_files psg)" by auto
  from include_call_files[OF c]
  have q: "prefix (preprocessed_files ps @ [abspath E infile]) (preprocessed_files ps1)" .
  from q p have pq: "prefix (preprocessed_files ps @ [abspath E infile]) (preprocessed_files psg)"
    by (rule prefix_order.trans)
  then have "abspath E infile \<in> set (preprocessed_files psg)"
    by (auto simp add: prefix_def)
  moreover from pq have "prefix (preprocessed_files ps) (preprocessed_files psg)"
    by (meson prefix_order.trans prefixI)
  ultimately show ?case using s a by simp
qed

lemma include_chain_fails:
  "include_chain E C N infile ct ps ks = Some (n', g, ct', psg, active) \<Longrightarrow>
   preprocess E C n' g ct' psg = Some (Inl e) \<Longrightarrow>
     preprocess E C N infile ct ps = Some (Inl e)"
proof (induction E C N infile ct ps ks arbitrary: n' g ct' psg active rule: include_chain.induct)
  case (1 E C n infile ct ps)
  then show ?case by simp
next
  case (2 E C infile ct ps k ks)
  then show ?case by simp
next
  case (3 E C n infile ct ps k ks)
  let ?rec = "\<lambda>fname p. preprocess E C n fname None p"
  from "3.prems"(1) obtain fname ps1 act where
    c: "include_call E C ?rec infile ct ps k = Some (fname, ps1)"
    and ch: "include_chain E C n fname None ps1 ks = Some (n', g, ct', psg, act)"
    by (auto split: option.splits)
  from "3.IH"[OF c refl ch "3.prems"(2)] have "?rec fname ps1 = Some (Inl e)" .
  from include_call_fails[OF c this] show ?case by simp
qed

section \<open>One entry of output for each line\<close>

lemma stmt_fout:
  assumes "process_stmt E C rec infile l m st = Some (Inr st1)"
    and "group_str m ''op'' \<noteq> ''include'' \<or> skipping (fst st)"
  shows "fout (snd st1) = fout (snd st)"
proof (cases "group_str m ''op'' = ''include''")
  case True
  with assms(2) have "skipping (fst st)" by simp
  with True assms(1) show ?thesis by (simp add: process_stmt_def Let_def)
next
  case False
  with assms(1) show ?thesis
    by (auto simp add: process_stmt_def Let_def split: if_splits option.splits sum.splits exn.splits)
qed

lemma keep_step:
  assumes "should_keep_lines C"
    and "process_line E C rec stmtRes infile n l st = Some (Inr st1)"
    and "\<not> executes_include stmtRes l st"
  shows "length (fout (snd st1)) = Suc (length (fout (snd st))) \<and>
         (\<not> should_substitute C \<longrightarrow> fout (snd st1) = fout (snd st) @ [kept_line stmtRes l st])"
proof (cases "first_match stmtRes l")
  case None
  with assms show ?thesis
    by (auto simp add: process_line_def process_content_def Let_def kept_line_def skipping_def
          not_EMIT split: if_splits)
next
  case (Some m)
  let ?st0 = "(fst st, (snd st)\<lparr>defs := dict_set (defs (snd st)) ''__LINE__'' (PInt (int n))\<rparr>)"
  from stmt_line[OF assms(2) Some] obtain st2 where
    p: "process_stmt E C rec infile l m ?st0 = Some (Inr st2)"
    and s1: "st1 = (fst st2, if should_keep_lines C then (snd st2)\<lparr>fout := fout (snd st2) @ [nl]\<rparr>
                             else snd st2)"
    by blast
  from s1 assms(1) have s: "fout (snd st1) = fout (snd st2) @ [nl]" by simp
  from assms(3) Some have "group_str m ''op'' \<noteq> ''include'' \<or> skipping (fst ?st0)"
    by (simp add: executes_include_def)
  from stmt_fout[OF p this] s Some show ?thesis by (simp add: kept_line_def)
qed

lemma not_list_ex: "\<not> list_ex (\<lambda>(l, s). P l s) xs \<Longrightarrow> \<forall>(l, s) \<in> set xs. \<not> P l s"
  by (auto simp add: list_ex_iff)

lemma keep_run:
  assumes "should_keep_lines C"
  shows "run_lines E C rec stmtRes infile n ls st = Some (Inr st') \<Longrightarrow>
     \<forall>(l, s) \<in> set (line_states E C rec stmtRes infile n ls st). \<not> executes_include stmtRes l s \<Longrightarrow>
     length (fout (snd st')) = length (fout (snd st)) + length ls \<and>
     (\<not> should_substitute C \<longrightarrow>
        fout (snd st') = fout (snd st) @
          map (\<lambda>(l, s). kept_line stmtRes l s) (line_states E C rec stmtRes infile n ls st))"
proof (induction ls arbitrary: n st)
  case Nil
  then show ?case by (simp add: line_states_def)
next
  case (Cons l ls)
  from run_lines_Cons[OF Cons.prems(1)] obtain st1 where
    p: "process_line E C rec stmtRes infile (Suc n) l st = Some (Inr st1)"
    and r: "run_lines E C rec stmtRes infile (Suc n) ls st1 = Some (Inr st')"
    by blast
  from p have ls: "line_states E C rec stmtRes infile n (l # ls) st =
                     (l, st) # line_states E C rec stmtRes infile (Suc n) ls st1"
    by (simp add: line_states_def)
  from Cons.prems(2) ls have ni: "\<not> executes_include stmtRes l st"
    and nis: "\<forall>(l, s) \<in> set (line_states E C rec stmtRes infile (Suc n) ls st1).
                \<not> executes_include stmtRes l s"
    by auto
  from keep_step[OF assms p ni] Cons.IH[OF r nis] ls show ?case by auto
qed

section \<open>The lines of a text\<close>

lemma newlines_of_line:
  assumes "one_line l"
  shows "length (filter (\<lambda>c. c = CHR 0x0A) l) = (if last l = CHR 0x0A then 1 else 0)"
proof -
  from assms have ne: "l \<noteq> []" and b: "filter (\<lambda>c. c = CHR 0x0A) (butlast l) = []"
    by (auto simp add: one_line_def list_all_iff filter_empty_conv)
  from ne have "l = butlast l @ [last l]" by simp
  then have "filter (\<lambda>c. c = CHR 0x0A) l
               = filter (\<lambda>c. c = CHR 0x0A) (butlast l) @ filter (\<lambda>c. c = CHR 0x0A) [last l]"
    by (metis filter_append)
  with b show ?thesis by simp
qed

lemma newlines_of_lines:
  "list_all (\<lambda>l. one_line l \<and> last l = CHR 0x0A) xs \<Longrightarrow>
     length (filter (\<lambda>c. c = CHR 0x0A) (concat xs)) = length xs \<and>
     (concat xs \<noteq> [] \<longrightarrow> last (concat xs) = CHR 0x0A)"
proof (induction xs rule: rev_induct)
  case Nil
  then show ?case by simp
next
  case (snoc l xs)
  then have ol: "one_line l" and la: "last l = CHR 0x0A"
    and rest: "list_all (\<lambda>l. one_line l \<and> last l = CHR 0x0A) xs" by simp_all
  from ol have ne: "l \<noteq> []" by (simp add: one_line_def)
  from snoc.IH[OF rest] newlines_of_line[OF ol] la ne show ?case by simp
qed

lemma count_lines_well_split:
  assumes "well_split ls"
  shows "count_lines (concat ls) = length ls"
proof (cases ls rule: rev_cases)
  case Nil
  then show ?thesis by (simp add: count_lines_def)
next
  case (snoc xs l)
  with assms have ol: "one_line l" and a: "list_all one_line xs"
    and b: "list_all (\<lambda>l. last l = CHR 0x0A) xs"
    by (simp_all add: well_split_def)
  from a b have "list_all (\<lambda>l. one_line l \<and> last l = CHR 0x0A) xs"
    by (simp add: list_all_iff)
  from newlines_of_lines[OF this] have
    n: "length (filter (\<lambda>c. c = CHR 0x0A) (concat xs)) = length xs" by simp
  from ol have ne: "l \<noteq> []" by (simp add: one_line_def)
  from n newlines_of_line[OF ol] ne snoc show ?thesis by (simp add: count_lines_def)
qed

text \<open>Lines replaced by blank lines are still the lines of a text.\<close>

lemma well_split_blanked:
  assumes w: "well_split ls" and len: "length ws = length ls"
    and el: "\<forall>i < length ls. ws ! i = ls ! i \<or> ws ! i = nl"
  shows "well_split ws"
proof -
  have nl1: "one_line nl" and nl2: "last nl = CHR 0x0A" by (simp_all add: one_line_def nl_def)
  from w have a: "\<forall>i < length ls. one_line (ls ! i)"
    and b: "\<forall>i < length ls - 1. last (ls ! i) = CHR 0x0A"
    by (auto simp add: well_split_def list_all_length nth_butlast)
  have "\<forall>i < length ws. one_line (ws ! i)"
  proof (intro allI impI)
    fix i assume "i < length ws"
    with len el a nl1 show "one_line (ws ! i)" by (metis)
  qed
  moreover have "\<forall>i < length ws - 1. last (ws ! i) = CHR 0x0A"
  proof (intro allI impI)
    fix i assume i: "i < length ws - 1"
    then have "i < length ls" using len by arith
    with el have "ws ! i = ls ! i \<or> ws ! i = nl" by blast
    with i len b nl2 show "last (ws ! i) = CHR 0x0A" by auto
  qed
  ultimately show ?thesis by (simp add: well_split_def list_all_length nth_butlast)
qed

lemma trace_length:
  "run_lines E C rec stmtRes infile n ls st = Some (Inr st') \<Longrightarrow>
     length (trace_lines E C rec stmtRes infile n ls st) = length ls"
  by (induction ls arbitrary: n st) (auto split: option.splits sum.splits)

lemma kept_lines_well_split:
  assumes r: "run_lines E C rec stmtRes infile n ls st = Some (Inr st')"
    and w: "well_split ls"
  shows "well_split (map (\<lambda>(l, s). kept_line stmtRes l s)
           (line_states E C rec stmtRes infile n ls st))"
proof (rule well_split_blanked[OF w])
  let ?LS = "line_states E C rec stmtRes infile n ls st"
  from trace_length[OF r] have len: "length ?LS = length ls" by (simp add: line_states_def)
  then show "length (map (\<lambda>(l, s). kept_line stmtRes l s) ?LS) = length ls" by simp
  show "\<forall>i < length ls. map (\<lambda>(l, s). kept_line stmtRes l s) ?LS ! i = ls ! i
          \<or> map (\<lambda>(l, s). kept_line stmtRes l s) ?LS ! i = nl"
  proof (intro allI impI)
    fix i assume i: "i < length ls"
    with len have f: "fst (?LS ! i) = ls ! i" by (simp add: line_states_def)
    from i len have "map (\<lambda>(l, s). kept_line stmtRes l s) ?LS ! i
                      = kept_line stmtRes (fst (?LS ! i)) (snd (?LS ! i))"
      by (simp add: case_prod_beta)
    with f show "map (\<lambda>(l, s). kept_line stmtRes l s) ?LS ! i = ls ! i
          \<or> map (\<lambda>(l, s). kept_line stmtRes l s) ?LS ! i = nl"
      by (simp add: kept_line_def)
  qed
qed


section \<open>C1: unbalanced nesting\<close>

text \<open>
  C1 (unbalanced nesting always fails).  The file \<open>/w/a.txt\<close> has the two lines
  \<open># #endif\<close> and \<open># #if 1\<close>: the \<open>#endif\<close> has no matching \<open>#if\<close>, and the \<open>#if\<close> is never
  closed.  The \<open>#endif\<close> pops the bottom state, the \<open>#if\<close> pushes a state on the empty
  stack, and the check after the loop finds one state: \<open>preprocess\<close> returns the defines
  and raises neither the unterminated-block nor the superfluous-endif error.
\<close>

theorem C1_endif_then_if_is_accepted:
  "preprocess (demo_env endif_then_if) (demo_config False False) 1 ''/w/a.txt'' None (start [])
     = Some (Inr (in_file ''/w/a.txt'' 2 [] [''/w/a.txt'']))"
  by code_simp

section \<open>C2: recursive includes\<close>

text \<open>
  C2 (an include of a file of the active chain fails).  Follow a chain of \<open>include\<close>
  statements from the call of \<open>preprocess\<close> on \<open>infile\<close>, of any length.  If the file \<open>g\<close>
  that the last statement of the chain names has, normalised, the absolute path of a file
  of the chain, then \<open>preprocess\<close> on \<open>infile\<close> fails with the recursive-include error for
  \<open>g\<close>.  The error is raised by the guard at the start of the call on \<open>g\<close>, before the file
  is read; the depth bound \<open>Suc n'\<close> says only that this call is within the bound.
\<close>

theorem C2_include_of_active_file_fails:
  assumes "include_chain E C N infile ct ps ks = Some (Suc n', g, ct', psg, active)"
    and "normpath E (abspath E g) \<in> set active"
  shows "preprocess E C N infile ct ps = Some (Inl (recursive_include g))"
proof -
  from include_chain_files[OF assms(1)] assms(2) have "already_preprocessed E g psg"
    by (auto simp add: already_preprocessed_def)
  then have "preprocess E C (Suc n') g ct' psg = Some (Inl (recursive_include g))"
    by (rule guard_fails)
  with assms(1) show ?thesis by (rule include_chain_fails)
qed

text \<open>
  The witness: \<open>/w/a.txt\<close> includes \<open>/w/b.txt\<close> on its first line, which includes
  \<open>/w/a.txt\<close> on its first line.
\<close>

theorem C2_include_of_active_file_fails_witness:
  "include_chain (demo_env include_cycle) (demo_config False False) 3 ''/w/a.txt'' None (start [])
       [0, 0]
     = Some (Suc 0, ''/w/a.txt'', None, in_file ''/w/b.txt'' 1 [] [''/w/a.txt'', ''/w/b.txt''],
             [''/w/a.txt'', ''/w/b.txt''])
   \<and> normpath (demo_env include_cycle) (abspath (demo_env include_cycle) ''/w/a.txt'')
        \<in> set [''/w/a.txt'', ''/w/b.txt'']
   \<and> preprocess (demo_env include_cycle) (demo_config False False) 3 ''/w/a.txt'' None (start [])
     = Some (Inl (recursive_include ''/w/a.txt''))"
proof -
  have h1: "include_chain (demo_env include_cycle) (demo_config False False) 3 ''/w/a.txt'' None
              (start []) [0, 0]
     = Some (Suc 0, ''/w/a.txt'', None, in_file ''/w/b.txt'' 1 [] [''/w/a.txt'', ''/w/b.txt''],
             [''/w/a.txt'', ''/w/b.txt''])"
    by code_simp
  have h2: "normpath (demo_env include_cycle) (abspath (demo_env include_cycle) ''/w/a.txt'')
        \<in> set [''/w/a.txt'', ''/w/b.txt'']"
    by code_simp
  from C2_include_of_active_file_fails[OF h1 h2] h1 h2 show ?thesis by blast
qed

section \<open>C3: the reserved identifiers\<close>

text \<open>
  C3 (the reserved identifiers are current at every evaluation).  \<open>/w/a.txt\<close> includes
  \<open>/w/b.txt\<close> on line 1 and evaluates \<open>#if BAR\<close> on line 2, with \<open>BAR\<close> undefined.  The
  failure that \<open>_evaluate\<close> builds from \<open>defines['__FILE__']\<close> and \<open>defines['__LINE__']\<close>
  names line 2 of \<open>/w/b.txt\<close>: after the include has returned, \<open>__FILE__\<close> is still the
  included file.
\<close>

theorem C3_file_is_stale_after_include:
  "preprocess (demo_env include_then_if) (demo_config False False) 2 ''/w/a.txt'' None (start [])
     = Some (Inl (PreprocessorError (''name '' @ sq @ ''BAR'' @ sq @ '' is not defined'')
                    (Some (PStr ''/w/b.txt'')) (Some (PInt 2)) None))"
  by code_simp

section \<open>C4: the order of the content type lookups\<close>

text \<open>
  C4 (the content is sniffed only if the path decides nothing).  The suffix \<open>.html\<close> is
  registered as \<open>HTML\<close>, and \<open>/w/page.html\<close> starts with \<open><?xml\<close>: \<open>get_content_type\<close>
  returns \<open>XML\<close>, since the sniffing is not guarded by \<open>not contentType\<close> as the three
  lookups before it are.
\<close>

theorem C4_sniffing_overrides_the_suffix:
  "map_of (suffixMap default_registry) ''.html'' = Some ''HTML'' \<and>
   get_content_type (demo_env xml_in_html) default_registry ''/w/page.html'' = Inr (Some ''XML'')"
  by code_simp

section \<open>C5: one emitting branch in an if-block\<close>

text \<open>
  C5 (at most one branch of an \<open>#if\<close>/\<open>#elif\<close>/\<open>#else\<close> chain emits).  Two branches of one
  chain: the statement \<open>d1\<close> (an \<open>#if\<close>, \<open>#ifdef\<close>, \<open>#ifndef\<close>, \<open>#elif\<close> or \<open>#else\<close>) with
  its body \<open>b1\<close>, then any number of branches \<open>mid\<close> of the same chain, then the statement
  \<open>d2\<close> (an \<open>#elif\<close> or \<open>#else\<close>) with its body \<open>b2\<close>.  The bodies hold content lines,
  statements and whole nested if-blocks.  The states are those of one run: \<open>s1\<close> after
  \<open>d1\<close>, \<open>s1'\<close> after \<open>b1\<close>, \<open>t\<close> after \<open>mid\<close>, \<open>s2\<close> after \<open>d2\<close> and \<open>s2'\<close> after \<open>b2\<close>.

  The two branches do not both emit.  When the first one emits, the second one skips,
  and the run of its statement is the same for every evaluator and every behaviour of
  includes: the expression of a later \<open>#elif\<close> is not evaluated.  A branch that does not
  emit writes nothing but blank lines, one for each line of its body when lines are kept
  and none otherwise.
\<close>

theorem C5_one_branch_of_a_chain_emits:
  assumes "opens_branch stmtRes d1" and "nested stmtRes b1"
    and "list_all (\<lambda>(d, b). next_branch stmtRes d \<and> nested stmtRes b) mid"
    and "next_branch stmtRes d2" and "nested stmtRes b2"
    and "run_lines E C rec stmtRes infile n [d1] s = Some (Inr s1)"
    and "run_lines E C rec stmtRes infile (Suc n) b1 s1 = Some (Inr s1')"
    and "run_lines E C rec stmtRes infile (Suc n + length b1) (seg_lines mid) s1' = Some (Inr t)"
    and "run_lines E C rec stmtRes infile (Suc n + length b1 + length (seg_lines mid)) [d2] t
           = Some (Inr s2)"
    and "run_lines E C rec stmtRes infile (Suc (Suc n) + length b1 + length (seg_lines mid)) b2 s2
           = Some (Inr s2')"
  shows "\<not> (emitting (fst s1) \<and> emitting (fst s2))
       \<and> (emitting (fst s1) \<longrightarrow> skipping (fst s2) \<and>
            (\<forall>E' rec'. run_lines E' C rec' stmtRes infile
                          (Suc n + length b1 + length (seg_lines mid)) [d2] t = Some (Inr s2)))
       \<and> (\<not> emitting (fst s1) \<longrightarrow> fout (snd s1') = fout (snd s1) @ blank_lines C (length b1))
       \<and> (\<not> emitting (fst s2) \<longrightarrow> fout (snd s2') = fout (snd s2) @ blank_lines C (length b2))"
proof -
  let ?n2 = "Suc n + length b1 + length (seg_lines mid)"
  from assms(6) have p1: "process_line E C rec stmtRes infile (Suc n) d1 s = Some (Inr s1)"
    by (auto split: option.splits sum.splits)
  from assms(9) have p2: "process_line E C rec stmtRes infile (Suc ?n2) d2 t = Some (Inr s2)"
    by (auto split: option.splits sum.splits)
  from branch_opened[OF p1 assms(1)] have ne1: "fst s1 \<noteq> []"
    and fl1: "emitting (fst s1) \<Longrightarrow> fst (snd (last (fst s1)))" by simp_all
  from assms(4) have ob2: "opens_branch stmtRes d2"
    by (auto simp add: next_branch_def opens_branch_def split: option.splits)
  from branch_opened[OF p2 ob2] have ne2: "fst s2 \<noteq> []" by simp
  have flagged: "fst t \<noteq> [] \<and> fst (snd (last (fst t)))" if e: "emitting (fst s1)"
  proof -
    from nested_run[OF assms(2) assms(7)] ne1 fl1[OF e]
    have "fst s1' \<noteq> [] \<and> fst (snd (last (fst s1')))" by simp
    from flagged_branches[OF assms(3) assms(8) this] show ?thesis .
  qed
  have a: "\<not> (emitting (fst s1) \<and> emitting (fst s2))"
  proof
    assume b: "emitting (fst s1) \<and> emitting (fst s2)"
    from flagged_branch[OF p2 assms(4) flagged] b have "skipping (fst s2)" by simp
    with b emitting_not_skipping show False by blast
  qed
  have b: "skipping (fst s2) \<and>
      (\<forall>E' rec'. run_lines E' C rec' stmtRes infile ?n2 [d2] t = Some (Inr s2))"
    if e: "emitting (fst s1)"
  proof (intro conjI allI)
    from flagged_branch[OF p2 assms(4) flagged[OF e]] show "skipping (fst s2)" by simp
  next
    fix E' rec'
    from flagged_branch[OF p2 assms(4) flagged[OF e], of E' rec']
    show "run_lines E' C rec' stmtRes infile ?n2 [d2] t = Some (Inr s2)" by simp
  qed
  have c: "fout (snd s1') = fout (snd s1) @ blank_lines C (length b1)" if "\<not> emitting (fst s1)"
    using nested_skip_run[OF assms(2) assms(7) emitting_or_skipping[OF ne1 that]] by simp
  have d: "fout (snd s2') = fout (snd s2) @ blank_lines C (length b2)" if "\<not> emitting (fst s2)"
    using nested_skip_run[OF assms(5) assms(10) emitting_or_skipping[OF ne2 that]] by simp
  from a b c d show ?thesis by blast
qed

text \<open>
  The witness, on a file of twelve lines: \<open>#if 1\<close>, \<open>first\<close>, a nested block \<open>#if 0\<close>,
  \<open>inner\<close>, \<open>#endif\<close>, then \<open>#elif 0\<close>, \<open>second\<close>, \<open>#elif 1\<close>, \<open>third\<close>, \<open>#else\<close>, \<open>fourth\<close>,
  \<open>#endif\<close>, with lines kept.  The first branch is lines 1 to 5, the second one is the
  \<open>#elif 1\<close> of line 8 with line 9, and the \<open>#elif 0\<close> branch lies between them.  The
  first branch emits; the \<open>#elif 1\<close> leaves \<open>(SKIP, 1, 0)\<close>, also with an evaluator that
  raises on every expression, and \<open>third\<close> is written as a blank line.
\<close>

theorem C5_one_branch_of_a_chain_emits_witness:
  "emitting [(EMIT, False, False), (EMIT, True, False)]
   \<and> skipping [(EMIT, False, False), (SKIP, True, False)]
   \<and> \<not> emitting [(EMIT, False, False), (SKIP, True, False)]
   \<and> run_lines (demo_env chain_file) (demo_config True False) (\<lambda>fname p. None) text_patterns
        ''/w/a.txt'' 7 [''# #elif 1'' @ nl]
        ([(EMIT, False, False), (SKIP, True, False)],
         in_file ''/w/a.txt'' 7 [nl, ''first'' @ nl, nl, nl, nl, nl, nl] [''/w/a.txt''])
      = Some (Inr ([(EMIT, False, False), (SKIP, True, False)],
           in_file ''/w/a.txt'' 8 [nl, ''first'' @ nl, nl, nl, nl, nl, nl, nl] [''/w/a.txt'']))
   \<and> run_lines ((demo_env [])\<lparr>py_eval := (\<lambda>expr d. Inl ''raised'')\<rparr>) (demo_config True False)
        (\<lambda>fname p. Some (Inl (IOError fname))) text_patterns
        ''/w/a.txt'' 7 [''# #elif 1'' @ nl]
        ([(EMIT, False, False), (SKIP, True, False)],
         in_file ''/w/a.txt'' 7 [nl, ''first'' @ nl, nl, nl, nl, nl, nl] [''/w/a.txt''])
      = Some (Inr ([(EMIT, False, False), (SKIP, True, False)],
           in_file ''/w/a.txt'' 8 [nl, ''first'' @ nl, nl, nl, nl, nl, nl, nl] [''/w/a.txt'']))
   \<and> run_lines (demo_env chain_file) (demo_config True False) (\<lambda>fname p. None) text_patterns
        ''/w/a.txt'' 8 [''third'' @ nl]
        ([(EMIT, False, False), (SKIP, True, False)],
         in_file ''/w/a.txt'' 8 [nl, ''first'' @ nl, nl, nl, nl, nl, nl, nl] [''/w/a.txt''])
      = Some (Inr ([(EMIT, False, False), (SKIP, True, False)],
           in_file ''/w/a.txt'' 9 [nl, ''first'' @ nl, nl, nl, nl, nl, nl, nl, nl] [''/w/a.txt'']))
   \<and> [nl, ''first'' @ nl, nl, nl, nl, nl, nl, nl, nl] =
       [nl, ''first'' @ nl, nl, nl, nl, nl, nl, nl] @ [nl]"
proof -
  let ?E = "demo_env chain_file" and ?C = "demo_config True False"
  let ?rec = "\<lambda>(fname::string) (p::pstate). (None :: (exn + pstate) option)"
  let ?d1 = "''# #if 1'' @ nl"
  let ?b1 = "[''first'' @ nl, ''# #if 0'' @ nl, ''inner'' @ nl, ''# #endif'' @ nl]"
  let ?mid = "[(''# #elif 0'' @ nl, [''second'' @ nl])]"
  let ?d2 = "''# #elif 1'' @ nl"
  let ?b2 = "[''third'' @ nl]"
  let ?s = "enter_file ?E ''/w/a.txt'' (start [])"
  let ?s1 = "([(EMIT, False, False), (EMIT, True, False)],
              in_file ''/w/a.txt'' 1 [nl] [''/w/a.txt''])"
  let ?s1' = "([(EMIT, False, False), (EMIT, True, False)],
              in_file ''/w/a.txt'' 5 [nl, ''first'' @ nl, nl, nl, nl] [''/w/a.txt''])"
  let ?t = "([(EMIT, False, False), (SKIP, True, False)],
              in_file ''/w/a.txt'' 7 [nl, ''first'' @ nl, nl, nl, nl, nl, nl] [''/w/a.txt''])"
  let ?s2 = "([(EMIT, False, False), (SKIP, True, False)],
              in_file ''/w/a.txt'' 8 [nl, ''first'' @ nl, nl, nl, nl, nl, nl, nl] [''/w/a.txt''])"
  let ?s2' = "([(EMIT, False, False), (SKIP, True, False)],
              in_file ''/w/a.txt'' 9 [nl, ''first'' @ nl, nl, nl, nl, nl, nl, nl, nl] [''/w/a.txt''])"
  have h1: "opens_branch text_patterns ?d1" by code_simp
  have h2: "nested text_patterns ?b1" by code_simp
  have h3: "list_all (\<lambda>(d, b). next_branch text_patterns d \<and> nested text_patterns b) ?mid"
    by code_simp
  have h4: "next_branch text_patterns ?d2" by code_simp
  have h5: "nested text_patterns ?b2" by code_simp
  have h6: "run_lines ?E ?C ?rec text_patterns ''/w/a.txt'' 0 [?d1] ?s = Some (Inr ?s1)"
    by code_simp
  have h7: "run_lines ?E ?C ?rec text_patterns ''/w/a.txt'' (Suc 0) ?b1 ?s1 = Some (Inr ?s1')"
    by code_simp
  have h8: "run_lines ?E ?C ?rec text_patterns ''/w/a.txt'' (Suc 0 + length ?b1) (seg_lines ?mid) ?s1'
              = Some (Inr ?t)"
    by code_simp
  have h9: "run_lines ?E ?C ?rec text_patterns ''/w/a.txt''
              (Suc 0 + length ?b1 + length (seg_lines ?mid)) [?d2] ?t = Some (Inr ?s2)"
    by code_simp
  have h10: "run_lines ?E ?C ?rec text_patterns ''/w/a.txt''
              (Suc (Suc 0) + length ?b1 + length (seg_lines ?mid)) ?b2 ?s2 = Some (Inr ?s2')"
    by code_simp
  have n7: "Suc 0 + length ?b1 + length (seg_lines ?mid) = 7" by (simp add: seg_lines_def)
  have n8: "Suc (Suc 0) + length ?b1 + length (seg_lines ?mid) = 8" by (simp add: seg_lines_def)
  have e1: "emitting (fst ?s1)" by (simp add: emitting_def)
  have bl: "blank_lines ?C (length ?b2) = [nl]" by (simp add: blank_lines_def demo_config_def)
  note c = C5_one_branch_of_a_chain_emits[OF h1 h2 h3 h4 h5 h6 h7 h8 h9 h10]
  from c e1 have c1: "\<not> emitting (fst ?s2)" by blast
  from c e1 have c2: "skipping (fst ?s2)" by blast
  from c e1 have c3: "run_lines ((demo_env [])\<lparr>py_eval := (\<lambda>expr d. Inl ''raised'')\<rparr>) ?C
        (\<lambda>fname p. Some (Inl (IOError fname))) text_patterns ''/w/a.txt''
        (Suc 0 + length ?b1 + length (seg_lines ?mid)) [?d2] ?t = Some (Inr ?s2)" by blast
  from c c1 have c4: "fout (snd ?s2') = fout (snd ?s2) @ blank_lines ?C (length ?b2)" by blast
  from c4 have c5: "[nl, ''first'' @ nl, nl, nl, nl, nl, nl, nl, nl] =
       [nl, ''first'' @ nl, nl, nl, nl, nl, nl, nl] @ [nl]"
    unfolding bl by (simp add: in_file_def)
  from e1 c1 c2 c3 c5 h9 h10 show ?thesis unfolding n7 n8 by simp
qed

section \<open>C6: nested statements in a skipped section\<close>

text \<open>
  C6 (an \<open>#if\<close> in a skipped section is not evaluated).  When the top of the stack skips,
  an \<open>#if\<close>, \<open>#ifdef\<close> or \<open>#ifndef\<close> pushes \<open>(SKIP, 0, 0)\<close> and the loop goes on: the
  result does not depend on the evaluator, and it is not an exception, whatever the
  expression refers to.
\<close>

theorem C6_if_in_skipped_section:
  assumes "first_match stmtRes line = Some m"
    and "group_str m ''op'' \<in> {''if'', ''ifdef'', ''ifndef''}"
    and "skipping (fst st)"
  shows "process_line E C rec stmtRes infile lineNum line st =
     Some (Inr (fst st @ [(SKIP, False, False)],
        (snd st)\<lparr>defs := dict_set (defs (snd st)) ''__LINE__'' (PInt (int lineNum)),
                 fout := (if should_keep_lines C then fout (snd st) @ [nl] else fout (snd st))\<rparr>))"
  using assms by (simp add: process_line_def stmt_if_skipped Let_def)

text \<open>
  The witness: \<open>#if UNDEFINED\<close> on line 2, inside \<open>#if 0\<close>.  The evaluator raises on
  \<open>UNDEFINED\<close>, and the statement pushes \<open>(SKIP, 0, 0)\<close>.
\<close>

theorem C6_if_in_skipped_section_witness:
  "first_match text_patterns (''# #if UNDEFINED'' @ nl)
     = Some [(''op'', ''if''), (''expr'', ''UNDEFINED'')]
   \<and> group_str [(''op'', ''if''), (''expr'', ''UNDEFINED'')] ''op'' \<in> {''if'', ''ifdef'', ''ifndef''}
   \<and> skipping (fst ([(EMIT, False, False), (SKIP, False, False)],
                     in_file ''/w/a.txt'' 1 [] [''/w/a.txt'']))
   \<and> py_eval (demo_env nested_skip) ''UNDEFINED'' (defs (in_file ''/w/a.txt'' 2 [] [''/w/a.txt'']))
        = Inl (''name '' @ sq @ ''UNDEFINED'' @ sq @ '' is not defined'')
   \<and> process_line (demo_env nested_skip) (demo_config False False) (\<lambda>fname p. None) text_patterns
        ''/w/a.txt'' 2 (''# #if UNDEFINED'' @ nl)
        ([(EMIT, False, False), (SKIP, False, False)], in_file ''/w/a.txt'' 1 [] [''/w/a.txt''])
      = Some (Inr ([(EMIT, False, False), (SKIP, False, False), (SKIP, False, False)],
                   in_file ''/w/a.txt'' 2 [] [''/w/a.txt'']))"
proof -
  let ?st = "([(EMIT, False, False), (SKIP, False, False)], in_file ''/w/a.txt'' 1 [] [''/w/a.txt''])"
  have h1: "first_match text_patterns (''# #if UNDEFINED'' @ nl)
              = Some [(''op'', ''if''), (''expr'', ''UNDEFINED'')]"
    by code_simp
  have h2: "group_str [(''op'', ''if''), (''expr'', ''UNDEFINED'')] ''op''
              \<in> {''if'', ''ifdef'', ''ifndef''}"
    by code_simp
  have h3: "skipping (fst ?st)" by code_simp
  have h4: "py_eval (demo_env nested_skip) ''UNDEFINED''
              (defs (in_file ''/w/a.txt'' 2 [] [''/w/a.txt'']))
        = Inl (''name '' @ sq @ ''UNDEFINED'' @ sq @ '' is not defined'')"
    by code_simp
  have e: "(snd ?st)\<lparr>defs := dict_set (defs (snd ?st)) ''__LINE__'' (PInt (int 2)),
                 fout := (if should_keep_lines (demo_config False False) then fout (snd ?st) @ [nl]
                          else fout (snd ?st))\<rparr>
           = in_file ''/w/a.txt'' 2 [] [''/w/a.txt'']"
    by code_simp
  from C6_if_in_skipped_section [OF h1 h2 h3, of "demo_env nested_skip" "demo_config False False"
          "\<lambda>fname p. None" "''/w/a.txt''" 2]
  have "process_line (demo_env nested_skip) (demo_config False False) (\<lambda>fname p. None) text_patterns
        ''/w/a.txt'' 2 (''# #if UNDEFINED'' @ nl) ?st
      = Some (Inr ([(EMIT, False, False), (SKIP, False, False), (SKIP, False, False)],
                   in_file ''/w/a.txt'' 2 [] [''/w/a.txt'']))"
    unfolding e by simp
  with h1 h2 h3 h4 show ?thesis by blast
qed

section \<open>C7: kept lines\<close>

text \<open>
  C7 (with kept lines the output has as many lines as the input), as stated, fails in two
  ways.  A file that includes another: \<open>/w/a.txt\<close> is the one line \<open>#include "b.txt"\<close>,
  \<open>/w/b.txt\<close> has two content lines, and the output has three lines, the two lines of
  \<open>/w/b.txt\<close> and the blank line of the \<open>#include\<close>.  A define whose value has a newline,
  with substitution: \<open>/w/a.txt\<close> is the one line \<open>X\<close>, \<open>X\<close> is defined as \<open>a\<close>, newline, \<open>b\<close>,
  and the output has two lines.
\<close>

theorem C7_more_lines_than_the_input:
  "should_keep_lines (demo_config True False)
   \<and> read_lines (demo_env include_two_lines) ''/w/a.txt''
        = Some [''# #include '' @ dq @ ''b.txt'' @ dq @ nl]
   \<and> preprocess (demo_env include_two_lines) (demo_config True False) 2 ''/w/a.txt'' None (start [])
        = Some (Inr (in_file ''/w/b.txt'' 2 [''hello'' @ nl, ''world'' @ nl, nl]
                       [''/w/a.txt'', ''/w/b.txt'']))
   \<and> count_lines (concat [''# #include '' @ dq @ ''b.txt'' @ dq @ nl]) = 1
   \<and> count_lines (concat [''hello'' @ nl, ''world'' @ nl, nl]) = 3
   \<and> should_keep_lines (demo_config True True)
   \<and> read_lines (demo_env multi_line_value) ''/w/a.txt'' = Some [''X'' @ nl]
   \<and> preprocess (demo_env multi_line_value) (demo_config True True) 1 ''/w/a.txt'' None
        (start [(''X'', PStr (''a'' @ nl @ ''b''))])
        = Some (Inr \<lparr> defs = [(''X'', PStr (''a'' @ nl @ ''b'')), (''__FILE__'', PStr ''/w/a.txt''),
                             (''__LINE__'', PInt 1)],
                     fout = [''a'' @ nl @ ''b'' @ nl], preprocessed_files = [''/w/a.txt''] \<rparr>)
   \<and> count_lines (concat [''X'' @ nl]) = 1
   \<and> count_lines (concat [''a'' @ nl @ ''b'' @ nl]) = 2"
  by code_simp

text \<open>
  C7, amended: with kept lines and without substitution, a call of \<open>preprocess\<close> that
  returns and in which no \<open>include\<close> statement is executed writes, for each line of the
  input file, the line itself when it is a content line in an emitting section and a
  blank line when it is a statement or a skipped content line; the text written has as
  many lines as the text of the input file.  The lines of the input file are those of
  \<open>readlines()\<close>.
\<close>

theorem C7_as_many_lines_as_the_input:
  assumes "should_keep_lines C" and "\<not> should_substitute C"
    and "open_file E C infile ct = Inr (stmtRes, lines)"
    and "well_split lines"
    and "preprocess E C (Suc n) infile ct ps = Some (Inr ps')"
    and "\<forall>(l, s) \<in> set (line_states E C (\<lambda>fname p. preprocess E C n fname None p) stmtRes infile 0
                            lines (enter_file E infile ps)). \<not> executes_include stmtRes l s"
  shows "fout ps' = fout ps @ map (\<lambda>(l, s). kept_line stmtRes l s)
              (line_states E C (\<lambda>fname p. preprocess E C n fname None p) stmtRes infile 0 lines
                 (enter_file E infile ps))
       \<and> count_lines (concat (map (\<lambda>(l, s). kept_line stmtRes l s)
              (line_states E C (\<lambda>fname p. preprocess E C n fname None p) stmtRes infile 0 lines
                 (enter_file E infile ps)))) = count_lines (concat lines)
       \<and> count_lines (concat lines) = length lines"
proof -
  let ?rec = "\<lambda>fname p. preprocess E C n fname None p"
  from preprocess_run[OF assms(5)] obtain stmtRes' lines' st where
    o: "open_file E C infile ct = Inr (stmtRes', lines')"
    and r': "run_lines E C ?rec stmtRes' infile 0 lines' (enter_file E infile ps) = Some (Inr st)"
    and c: "ps' = snd st"
    by blast
  from o assms(3) have "stmtRes' = stmtRes" and "lines' = lines" by simp_all
  with r' have r: "run_lines E C ?rec stmtRes infile 0 lines (enter_file E infile ps) = Some (Inr st)"
    by simp
  from keep_run[OF assms(1) r assms(6)] c assms(2)
  have a: "fout ps' = fout ps @ map (\<lambda>(l, s). kept_line stmtRes l s)
              (line_states E C ?rec stmtRes infile 0 lines (enter_file E infile ps))"
    by (simp add: enter_file_def)
  from count_lines_well_split[OF kept_lines_well_split[OF r assms(4)]] trace_length[OF r]
  have b: "count_lines (concat (map (\<lambda>(l, s). kept_line stmtRes l s)
              (line_states E C ?rec stmtRes infile 0 lines (enter_file E infile ps)))) = length lines"
    by (simp add: line_states_def)
  from a b count_lines_well_split[OF assms(4)] show ?thesis by simp
qed

text \<open>
  The witness: six lines, \<open>#if 0\<close>, an \<open>#include\<close> of a file that does not exist,
  \<open>dropped\<close>, \<open>#else\<close>, \<open>kept\<close>, \<open>#endif\<close>.  The include is in the skipped section and is
  not executed; the output has six lines, \<open>kept\<close> and five blank lines.
\<close>

theorem C7_as_many_lines_as_the_input_witness:
  "should_keep_lines (demo_config True False)
   \<and> \<not> should_substitute (demo_config True False)
   \<and> open_file (demo_env keep_lines_file) (demo_config True False) ''/w/a.txt'' None
        = Inr (text_patterns,
               [''# #if 0'' @ nl, ''# #include '' @ dq @ ''missing.txt'' @ dq @ nl,
                ''dropped'' @ nl, ''# #else'' @ nl, ''kept'' @ nl, ''# #endif'' @ nl])
   \<and> well_split [''# #if 0'' @ nl, ''# #include '' @ dq @ ''missing.txt'' @ dq @ nl,
                ''dropped'' @ nl, ''# #else'' @ nl, ''kept'' @ nl, ''# #endif'' @ nl]
   \<and> preprocess (demo_env keep_lines_file) (demo_config True False) (Suc 0) ''/w/a.txt'' None
        (start [])
        = Some (Inr (in_file ''/w/a.txt'' 6 [nl, nl, nl, nl, ''kept'' @ nl, nl] [''/w/a.txt'']))
   \<and> \<not> list_ex (\<lambda>(l, s). executes_include text_patterns l s)
          (line_states (demo_env keep_lines_file) (demo_config True False)
             (\<lambda>fname p. preprocess (demo_env keep_lines_file) (demo_config True False) 0 fname None p)
             text_patterns ''/w/a.txt'' 0
             [''# #if 0'' @ nl, ''# #include '' @ dq @ ''missing.txt'' @ dq @ nl,
              ''dropped'' @ nl, ''# #else'' @ nl, ''kept'' @ nl, ''# #endif'' @ nl]
             (enter_file (demo_env keep_lines_file) ''/w/a.txt'' (start [])))
   \<and> [nl, nl, nl, nl, ''kept'' @ nl, nl]
        = map (\<lambda>(l, s). kept_line text_patterns l s)
          (line_states (demo_env keep_lines_file) (demo_config True False)
             (\<lambda>fname p. preprocess (demo_env keep_lines_file) (demo_config True False) 0 fname None p)
             text_patterns ''/w/a.txt'' 0
             [''# #if 0'' @ nl, ''# #include '' @ dq @ ''missing.txt'' @ dq @ nl,
              ''dropped'' @ nl, ''# #else'' @ nl, ''kept'' @ nl, ''# #endif'' @ nl]
             (enter_file (demo_env keep_lines_file) ''/w/a.txt'' (start [])))
   \<and> count_lines (concat [nl, nl, nl, nl, ''kept'' @ nl, nl])
        = count_lines (concat [''# #if 0'' @ nl, ''# #include '' @ dq @ ''missing.txt'' @ dq @ nl,
                ''dropped'' @ nl, ''# #else'' @ nl, ''kept'' @ nl, ''# #endif'' @ nl])
   \<and> count_lines (concat [''# #if 0'' @ nl, ''# #include '' @ dq @ ''missing.txt'' @ dq @ nl,
                ''dropped'' @ nl, ''# #else'' @ nl, ''kept'' @ nl, ''# #endif'' @ nl]) = 6"
proof -
  let ?E = "demo_env keep_lines_file" and ?C = "demo_config True False"
  let ?lines = "[''# #if 0'' @ nl, ''# #include '' @ dq @ ''missing.txt'' @ dq @ nl,
                 ''dropped'' @ nl, ''# #else'' @ nl, ''kept'' @ nl, ''# #endif'' @ nl]"
  let ?ls = "line_states ?E ?C (\<lambda>fname p. preprocess ?E ?C 0 fname None p) text_patterns
               ''/w/a.txt'' 0 ?lines (enter_file ?E ''/w/a.txt'' (start []))"
  let ?ps' = "in_file ''/w/a.txt'' 6 [nl, nl, nl, nl, ''kept'' @ nl, nl] [''/w/a.txt'']"
  have h1: "should_keep_lines ?C" by code_simp
  have h2: "\<not> should_substitute ?C" by code_simp
  have h3: "open_file ?E ?C ''/w/a.txt'' None = Inr (text_patterns, ?lines)" by code_simp
  have h4: "well_split ?lines" by code_simp
  have h5: "preprocess ?E ?C (Suc 0) ''/w/a.txt'' None (start []) = Some (Inr ?ps')"
    by code_simp
  have h6: "\<not> list_ex (\<lambda>(l, s). executes_include text_patterns l s) ?ls" by code_simp
  then have h6': "\<forall>(l, s) \<in> set ?ls. \<not> executes_include text_patterns l s"
    by (rule not_list_ex)
  have f: "fout ?ps' = [nl, nl, nl, nl, ''kept'' @ nl, nl]" by (simp add: in_file_def)
  have s0: "fout (start []) = []" by (simp add: start_def)
  have len: "length ?lines = 6" by simp
  note t = C7_as_many_lines_as_the_input[OF h1 h2 h3 h4 h5 h6']
  from t have t1: "fout ?ps' = fout (start []) @ map (\<lambda>(l, s). kept_line text_patterns l s) ?ls"
    by (rule conjunct1)
  from t have t2: "count_lines (concat (map (\<lambda>(l, s). kept_line text_patterns l s) ?ls))
                     = count_lines (concat ?lines)"
    by blast
  from t have t3: "count_lines (concat ?lines) = length ?lines" by blast
  from t1 have w: "[nl, nl, nl, nl, ''kept'' @ nl, nl]
                     = map (\<lambda>(l, s). kept_line text_patterns l s) ?ls"
    unfolding f s0 append_Nil .
  from t2 have c2: "count_lines (concat [nl, nl, nl, nl, ''kept'' @ nl, nl])
                     = count_lines (concat ?lines)"
    unfolding w[symmetric] .
  from t3 have c3: "count_lines (concat ?lines) = 6" unfolding len .
  from h1 h2 h3 h4 h5 h6 w c2 c3 show ?thesis by blast
qed

section \<open>C8: substitution\<close>

text \<open>
  C8 (substituted text is not rescanned).  With \<open>AB\<close> defined as the string \<open>A\<close> and \<open>A\<close>
  as \<open>5\<close>, the content line \<open>AB\<close> is written as \<open>5\<close>: the \<open>A\<close> that the replacement of \<open>AB\<close>
  put into the line is replaced in turn when the shorter name \<open>A\<close> is applied.
\<close>

theorem C8_replacement_text_is_rescanned:
  "preprocess (demo_env nested_defines) (demo_config False True) 1 ''/w/a.txt'' None (start [])
     = Some (Inr \<lparr>defs = [(''__FILE__'', PStr ''/w/a.txt''), (''__LINE__'', PInt 3),
                           (''AB'', PStr ''A''), (''A'', PInt 5)],
                   fout = [''5'' @ nl], preprocessed_files = [''/w/a.txt'']\<rparr>)"
  by code_simp

section \<open>C9: the error statement\<close>




section \<open>C10: the list of preprocessed files\<close>



end
